theory Spec2Isabelle
  imports Main "HOL-Library.Word"
begin

section \<open>Outcomes of the C code\<close>

text \<open>
  The unit under verification is \<^verbatim>\<open>ksymtab.c\<close>.  Every call of \<^verbatim>\<open>fail(...)\<close> (print a
  message, terminate the process) and the \<^verbatim>\<open>exit(1)\<close> of the section locator is a value of
  \<open>fatal\<close>, one constructor per call site.  A step whose behaviour the C standard leaves
  undefined (a read outside a buffer, the use of an indeterminate local, a NULL or dangling
  dereference) is the outcome \<open>Undefined\<close>; it is never identified with a \<open>fatal\<close>.
\<close>

datatype fatal =
    ElfVersionFailed
  | OpenFailed
  | ElfBeginFailed
  | GetehdrFailed
  | UnsupportedElfClass
  | GetshdrstrndxFailed
  | GetshdrFailed
  | StrptrFailed
  | SectionNobits
  | SectionEmpty
  | SymbolNameIndexOutOfRange
  | MalformedKsymtabStrings

datatype 'a res = Ok 'a | Fatal fatal | Undefined

type_synonym addr = nat
type_synonym u64 = "64 word"

abbreviation NUL :: char where
  "NUL \<equiv> CHR 0x00"

text \<open>The text of the C string that starts a byte sequence: everything before the first NUL.\<close>

definition c_str :: "string \<Rightarrow> string" where
  "c_str bs = takeWhile (\<lambda>c. c \<noteq> NUL) bs"

text \<open>
  A \<^verbatim>\<open>const char *\<close> into a byte region is the region and an offset.  Reading the C string
  at a pointer, as the \<^verbatim>\<open>%s\<close> of \<^verbatim>\<open>printf\<close> and of \<^verbatim>\<open>fail\<close> does, is undefined when the pointer
  is at or past the end of its region or no NUL follows inside it.
\<close>

type_synonym cptr = "string \<times> nat"

definition read_c_string :: "cptr \<Rightarrow> string res" where
  "read_c_string p =
     (case p of (region, off) \<Rightarrow>
        if length region \<le> off then Undefined
        else if NUL \<notin> set (drop off region) then Undefined
        else Ok (c_str (drop off region)))"

section \<open>The registry and its records, on an explicit heap\<close>

text \<open>
  \<^verbatim>\<open>struct ksym\<close> has the fields \<^verbatim>\<open>value\<close>, \<^verbatim>\<open>mark\<close>, \<^verbatim>\<open>link\<close>, \<^verbatim>\<open>ksymtab\<close> and the flexible
  array \<^verbatim>\<open>key\<close>; \<open>ksym_key\<close> holds the \<^verbatim>\<open>len\<close> bytes copied by \<^verbatim>\<open>memcpy\<close>, the terminating NUL
  written after them is implicit.  \<^verbatim>\<open>link\<close> is a pointer to a heap string or NULL, and
  \<^verbatim>\<open>ksymtab\<close> is the back pointer to the owning registry.
\<close>

record ksym =
  ksym_value :: u64
  ksym_mark :: bool
  ksym_link :: "addr option"
  ksym_ksymtab :: addr
  ksym_key :: string

text \<open>
  Modelled from the spec: \<^verbatim>\<open>struct hash\<close> and \<^verbatim>\<open>hash_new\<close>, \<^verbatim>\<open>hash_add\<close>, \<^verbatim>\<open>hash_find\<close>,
  \<^verbatim>\<open>hash_get_count\<close>, \<^verbatim>\<open>hash_iter_next\<close> of \<^verbatim>\<open>hash.h\<close> are not part of the unit.  The spec
  describes a unique-key associative container from names to records: the last insertion
  under a name wins for lookup, and the record it displaces is no longer reachable through
  the container, though it is not freed.  The count is the number of entries and iteration
  visits every entry.  It is an association list with one entry for a key, newest entry
  first, from the text of the key to the address of the record.
\<close>

type_synonym hash = "(string \<times> addr) list"

definition hash_new :: "nat \<Rightarrow> hash" where
  "hash_new sz = []"

definition hash_add :: "hash \<Rightarrow> string \<Rightarrow> addr \<Rightarrow> hash" where
  "hash_add h key v = (c_str key, v) # filter (\<lambda>e. fst e \<noteq> c_str key) h"

definition hash_find :: "hash \<Rightarrow> string \<Rightarrow> addr option" where
  "hash_find h key = map_of h (c_str key)"

definition hash_get_count :: "hash \<Rightarrow> nat" where
  "hash_get_count h = length h"

record ksymtab =
  hash :: hash
  mark_count :: u64

text \<open>
  The heap: the registries, the records and the link strings that are live, each under its
  address, and the next address \<^verbatim>\<open>malloc\<close> hands out.  \<^verbatim>\<open>safe_malloc\<close> either returns zeroed
  memory or terminates the process, so an allocation in the model always succeeds and a new
  record starts with \<^verbatim>\<open>mark\<close> false and \<^verbatim>\<open>link\<close> NULL.
\<close>

record heap =
  ksymtabs :: "addr \<rightharpoonup> ksymtab"
  ksyms :: "addr \<rightharpoonup> ksym"
  strings :: "addr \<rightharpoonup> string"
  brk :: addr

definition KSYMTAB_SIZE :: nat where
  "KSYMTAB_SIZE = 8192"

definition ksymtab_new :: "heap \<Rightarrow> nat \<Rightarrow> addr \<times> heap" where
  "ksymtab_new h sz =
     (let ksymtab = brk h in
      (ksymtab,
       h\<lparr>ksymtabs := (ksymtabs h)(ksymtab \<mapsto> \<lparr>hash = hash_new sz, mark_count = 0\<rparr>),
         brk := Suc (brk h)\<rparr>))"

text \<open>
  \<^verbatim>\<open>ksymtab_add_sym(ksymtab, str, len, value)\<close>: \<open>str\<close> is the memory readable from the pointer
  \<^verbatim>\<open>str\<close>.  Dereferencing a registry that is not live, or copying more bytes than are
  readable, is undefined.
\<close>

definition ksymtab_add_sym :: "heap \<Rightarrow> addr \<Rightarrow> string \<Rightarrow> nat \<Rightarrow> u64 \<Rightarrow> (addr \<times> heap) res" where
  "ksymtab_add_sym h ksymtab str len val =
     (case ksymtabs h ksymtab of
        None \<Rightarrow> Undefined
      | Some t \<Rightarrow>
          if length str < len then Undefined
          else
            let new = brk h;
                k = \<lparr>ksym_value = val, ksym_mark = False, ksym_link = None,
                     ksym_ksymtab = ksymtab, ksym_key = take len str\<rparr>
            in Ok (new,
                 h\<lparr>ksymtabs := (ksymtabs h)(ksymtab \<mapsto> t\<lparr>hash := hash_add (hash t) (ksym_key k) new\<rparr>),
                   ksyms := (ksyms h)(new \<mapsto> k),
                   brk := Suc (brk h)\<rparr>))"

definition ksymtab_ksym_mark :: "heap \<Rightarrow> addr \<Rightarrow> heap res" where
  "ksymtab_ksym_mark h ksym =
     (case ksyms h ksym of
        None \<Rightarrow> Undefined
      | Some k \<Rightarrow>
          if \<not> ksym_mark k then
            (case ksymtabs h (ksym_ksymtab k) of
               None \<Rightarrow> Undefined
             | Some t \<Rightarrow>
                 Ok (h\<lparr>ksymtabs := (ksymtabs h)(ksym_ksymtab k \<mapsto> t\<lparr>mark_count := mark_count t + 1\<rparr>),
                       ksyms := (ksyms h)(ksym \<mapsto> k\<lparr>ksym_mark := True\<rparr>)\<rparr>))
          else Ok (h\<lparr>ksyms := (ksyms h)(ksym \<mapsto> k\<lparr>ksym_mark := True\<rparr>)\<rparr>))"

text \<open>
  Modelled from the spec: the accessors \<^verbatim>\<open>ksymtab_ksym_is_marked\<close>, \<^verbatim>\<open>ksymtab_ksym_get_name\<close>,
  \<^verbatim>\<open>ksymtab_ksym_get_value\<close> and \<^verbatim>\<open>ksymtab_ksym_get_link\<close> of \<^verbatim>\<open>ksymtab.h\<close> are not part of the
  unit; they read the mark flag, the name, the value and the link of a record.  The name is
  a pointer to the key array: the key bytes and their terminating NUL.
\<close>

definition ksymtab_ksym_is_marked :: "ksym \<Rightarrow> bool" where
  "ksymtab_ksym_is_marked k = ksym_mark k"

definition ksymtab_ksym_get_name :: "ksym \<Rightarrow> string" where
  "ksymtab_ksym_get_name k = ksym_key k @ [NUL]"

definition ksymtab_ksym_get_value :: "ksym \<Rightarrow> u64" where
  "ksymtab_ksym_get_value k = ksym_value k"

definition ksymtab_ksym_get_link :: "ksym \<Rightarrow> addr option" where
  "ksymtab_ksym_get_link k = ksym_link k"

definition strlen :: "string \<Rightarrow> nat" where
  "strlen s = length (c_str s)"

text \<open>\<^verbatim>\<open>free\<close> of a link string; freeing a string that is not live is undefined.\<close>

definition free_string :: "heap \<Rightarrow> addr \<Rightarrow> heap res" where
  "free_string h a =
     (case strings h a of
        None \<Rightarrow> Undefined
      | Some s \<Rightarrow> Ok (h\<lparr>strings := (strings h)(a := None)\<rparr>))"

text \<open>
  Modelled from the spec: \<^verbatim>\<open>safe_strdup_or_null\<close> of \<^verbatim>\<open>utils.h\<close> is not part of the unit.  The
  spec has the link set to an independently owned copy of the text, or cleared when given
  none: NULL for NULL, else the result of \<^verbatim>\<open>strdup\<close>, a newly allocated string with the text
  of the argument.
\<close>

definition strdup :: "heap \<Rightarrow> string \<Rightarrow> addr \<times> heap" where
  "strdup h text = (brk h, h\<lparr>strings := (strings h)(brk h \<mapsto> text), brk := Suc (brk h)\<rparr>)"

definition safe_strdup_or_null :: "heap \<Rightarrow> addr option \<Rightarrow> (addr option \<times> heap) res" where
  "safe_strdup_or_null h s =
     (case s of
        None \<Rightarrow> Ok (None, h)
      | Some a \<Rightarrow>
          (case strings h a of
             None \<Rightarrow> Undefined
           | Some text \<Rightarrow> (case strdup h text of (a', h') \<Rightarrow> Ok (Some a', h'))))"

definition ksymtab_ksym_set_link :: "heap \<Rightarrow> addr \<Rightarrow> addr option \<Rightarrow> heap res" where
  "ksymtab_ksym_set_link h ksym link =
     (case ksyms h ksym of
        None \<Rightarrow> Undefined
      | Some k \<Rightarrow>
          (case (case ksym_link k of None \<Rightarrow> Ok h | Some l \<Rightarrow> free_string h l) of
             Ok h1 \<Rightarrow>
               (case safe_strdup_or_null h1 link of
                  Ok (l', h2) \<Rightarrow> Ok (h2\<lparr>ksyms := (ksyms h2)(ksym \<mapsto> k\<lparr>ksym_link := l'\<rparr>)\<rparr>)
                | Fatal e \<Rightarrow> Fatal e
                | Undefined \<Rightarrow> Undefined)
           | Fatal e \<Rightarrow> Fatal e
           | Undefined \<Rightarrow> Undefined))"

text \<open>\<^verbatim>\<open>ksymtab_ksym_free\<close>: \<^verbatim>\<open>free(ksym->link)\<close> (nothing for NULL), then \<^verbatim>\<open>free(ksym)\<close>.\<close>

definition ksymtab_ksym_free :: "heap \<Rightarrow> addr \<Rightarrow> heap res" where
  "ksymtab_ksym_free h ksym =
     (case ksyms h ksym of
        None \<Rightarrow> Undefined
      | Some k \<Rightarrow>
          (case (case ksym_link k of None \<Rightarrow> Ok h | Some l \<Rightarrow> free_string h l) of
             Ok h1 \<Rightarrow> Ok (h1\<lparr>ksyms := (ksyms h1)(ksym := None)\<rparr>)
           | Fatal e \<Rightarrow> Fatal e
           | Undefined \<Rightarrow> Undefined))"

definition ksymtab_copy_sym :: "heap \<Rightarrow> addr \<Rightarrow> addr \<Rightarrow> (addr \<times> heap) res" where
  "ksymtab_copy_sym h ksymtab ksym =
     (case ksyms h ksym of
        None \<Rightarrow> Undefined
      | Some k \<Rightarrow>
          (let name = ksymtab_ksym_get_name k;
               val = ksymtab_ksym_get_value k;
               link = ksymtab_ksym_get_link k
           in case ksymtab_add_sym h ksymtab name (strlen name) val of
                Ok (new, h1) \<Rightarrow>
                  (case ksymtab_ksym_set_link h1 new link of
                     Ok h2 \<Rightarrow> Ok (new, h2)
                   | Fatal e \<Rightarrow> Fatal e
                   | Undefined \<Rightarrow> Undefined)
              | Fatal e \<Rightarrow> Fatal e
              | Undefined \<Rightarrow> Undefined))"

text \<open>
  \<^verbatim>\<open>ksymtab_find(ksymtab, name)\<close>: a pointer argument that may be NULL is an \<open>option\<close>.  The
  registry is dereferenced before \<^verbatim>\<open>name\<close> is tested.
\<close>

definition ksymtab_find :: "heap \<Rightarrow> addr option \<Rightarrow> string option \<Rightarrow> addr option res" where
  "ksymtab_find h ksymtab name =
     (case ksymtab of
        None \<Rightarrow> Undefined
      | Some a \<Rightarrow>
          (case ksymtabs h a of
             None \<Rightarrow> Undefined
           | Some t \<Rightarrow>
               (case name of
                  None \<Rightarrow> Ok None
                | Some n \<Rightarrow>
                    (case hash_find (hash t) n of
                       None \<Rightarrow> Ok None
                     | Some v \<Rightarrow> Ok (Some v)))))"

definition ksymtab_len :: "heap \<Rightarrow> addr option \<Rightarrow> nat res" where
  "ksymtab_len h ksymtab =
     (case ksymtab of
        None \<Rightarrow> Ok 0
      | Some a \<Rightarrow>
          (case ksymtabs h a of
             None \<Rightarrow> Undefined
           | Some t \<Rightarrow> Ok (hash_get_count (hash t))))"

definition ksymtab_mark_count :: "heap \<Rightarrow> addr option \<Rightarrow> u64 res" where
  "ksymtab_mark_count h ksymtab =
     (case ksymtab of
        None \<Rightarrow> Undefined
      | Some a \<Rightarrow>
          (case ksymtabs h a of
             None \<Rightarrow> Undefined
           | Some t \<Rightarrow> Ok (mark_count t)))"

text \<open>
  Iteration.  The visitor works on the heap and on its own context and may itself end the
  process; \<open>hash_iter\<close> is the \<^verbatim>\<open>while (hash_iter_next(...))\<close> loop over the entries of the
  container.
\<close>

fun hash_iter :: "(addr \<Rightarrow> 's \<Rightarrow> 's res) \<Rightarrow> hash \<Rightarrow> 's \<Rightarrow> 's res" where
  "hash_iter f [] s = Ok s"
| "hash_iter f ((key, v) # es) s =
     (case f v s of
        Ok s' \<Rightarrow> hash_iter f es s'
      | Fatal e \<Rightarrow> Fatal e
      | Undefined \<Rightarrow> Undefined)"

definition ksymtab_for_each ::
  "addr option \<Rightarrow> (addr \<Rightarrow> heap \<times> 'c \<Rightarrow> (heap \<times> 'c) res) \<Rightarrow> heap \<times> 'c \<Rightarrow> (heap \<times> 'c) res" where
  "ksymtab_for_each ksymtab f s =
     (case ksymtab of
        None \<Rightarrow> Ok s
      | Some a \<Rightarrow>
          (case ksymtabs (fst s) a of
             None \<Rightarrow> Undefined
           | Some t \<Rightarrow> hash_iter f (hash t) s))"

definition unmarked_callback ::
  "(string \<Rightarrow> u64 \<Rightarrow> heap \<times> 'c \<Rightarrow> (heap \<times> 'c) res) \<Rightarrow> addr \<Rightarrow> heap \<times> 'c \<Rightarrow> (heap \<times> 'c) res" where
  "unmarked_callback f ksym s =
     (case ksyms (fst s) ksym of
        None \<Rightarrow> Undefined
      | Some k \<Rightarrow>
          if ksymtab_ksym_is_marked k then Ok s
          else
            (let name = ksymtab_ksym_get_name k;
                 idx = ksymtab_ksym_get_value k
             in f name idx s))"

definition ksymtab_for_each_unmarked ::
  "addr option \<Rightarrow> (string \<Rightarrow> u64 \<Rightarrow> heap \<times> 'c \<Rightarrow> (heap \<times> 'c) res) \<Rightarrow> heap \<times> 'c \<Rightarrow> (heap \<times> 'c) res" where
  "ksymtab_for_each_unmarked ksymtab f s = ksymtab_for_each ksymtab (unmarked_callback f) s"

section \<open>The splitter of the strings section\<close>

text \<open>
  The loop of \<^verbatim>\<open>parse_ksymtab_strings\<close>.  \<^verbatim>\<open>p\<close> always equals \<^verbatim>\<open>d_buf + size\<close>, so the offset
  \<open>sz\<close> stands for both the counter \<^verbatim>\<open>size\<close> and \<^verbatim>\<open>p\<close>; \<open>oldp\<close> is the offset of \<^verbatim>\<open>oldp\<close> in the
  buffer, \<open>i\<close> the running index and \<^verbatim>\<open>d_size\<close> is the length of the buffer.
\<close>

function parse_loop :: "string \<Rightarrow> nat \<Rightarrow> nat \<Rightarrow> u64 \<Rightarrow> addr \<Rightarrow> heap \<Rightarrow> heap res" where
  "parse_loop d_buf sz oldp i res h =
     (if sz < length d_buf then
        (if d_buf ! sz = NUL then
           (let len = sz - oldp in
            if len = 0 then parse_loop d_buf (Suc sz) (Suc sz) i res h
            else
              (case ksymtab_add_sym h res (drop oldp d_buf) len i of
                 Ok (new, h') \<Rightarrow> parse_loop d_buf (Suc sz) (Suc sz) (i + 1) res h'
               | Fatal e \<Rightarrow> Fatal e
               | Undefined \<Rightarrow> Undefined))
         else parse_loop d_buf (Suc sz) oldp i res h)
      else Ok h)"
  by pat_completeness auto
termination
  by (relation "measure (\<lambda>(d_buf, sz, oldp, i, res, h). length d_buf - sz)") auto

declare parse_loop.simps [simp del]

text \<open>
  \<^verbatim>\<open>parse_ksymtab_strings(d_buf, d_size)\<close> with \<open>d_size = length d_buf\<close>.  The registry is
  created first, then the last byte is tested.  With \<open>d_size = 0\<close> the test reads
  \<^verbatim>\<open>p[SIZE_MAX]\<close>, outside the buffer.  When the last byte is not NUL, \<^verbatim>\<open>fail\<close> prints the
  buffer with \<^verbatim>\<open>%s\<close> before it ends the process: that read stays inside the buffer only when
  some byte of it is NUL.  The heap at the end is returned beside the outcome, also when
  the process terminates.
\<close>

definition parse_ksymtab_strings :: "heap \<Rightarrow> string \<Rightarrow> addr res \<times> heap" where
  "parse_ksymtab_strings h d_buf =
     (let (res, h1) = ksymtab_new h KSYMTAB_SIZE in
      if d_buf = [] then (Undefined, h1)
      else if d_buf ! (length d_buf - 1) \<noteq> NUL then
        (case read_c_string (d_buf, 0) of
           Ok text \<Rightarrow> (Fatal MalformedKsymtabStrings, h1)
         | Fatal e \<Rightarrow> (Fatal e, h1)
         | Undefined \<Rightarrow> (Undefined, h1))
      else
        (case parse_loop d_buf 0 0 0 res h1 of
           Ok h2 \<Rightarrow> (Ok res, h2)
         | Fatal e \<Rightarrow> (Fatal e, h1)
         | Undefined \<Rightarrow> (Undefined, h1)))"

section \<open>The binary: what libelf reports\<close>

text \<open>
  The constants of \<^verbatim>\<open>elf.h\<close> and \<^verbatim>\<open>libelf.h\<close> the unit uses, and the names it looks for.
\<close>

definition ELF_K_ELF :: nat where "ELF_K_ELF = 3"
definition ELFMAG :: string where "ELFMAG = [CHR 0x7F, CHR ''E'', CHR ''L'', CHR ''F'']"
definition SELFMAG :: nat where "SELFMAG = 4"
definition ELFCLASS64 :: int where "ELFCLASS64 = 2"
definition SHT_NOBITS :: "32 word" where "SHT_NOBITS = 8"
definition STB_GLOBAL :: int where "STB_GLOBAL = 1"
definition STB_WEAK :: int where "STB_WEAK = 2"

definition ELF64_ST_BIND :: "8 word \<Rightarrow> int" where
  "ELF64_ST_BIND info = uint (drop_bit 4 info)"

definition KSYMTAB_STRINGS :: string where "KSYMTAB_STRINGS = ''__ksymtab_strings''"
definition SYMTAB :: string where "SYMTAB = ''.symtab''"
definition STRTAB :: string where "STRTAB = ''.strtab''"

text \<open>
  One section as the library presents it: whether \<^verbatim>\<open>gelf_getshdr\<close> succeeds on it, the name
  \<^verbatim>\<open>elf_strptr\<close> returns for \<^verbatim>\<open>sh_name\<close> (NULL is \<open>None\<close>), its \<^verbatim>\<open>sh_type\<close>, and the result of
  \<^verbatim>\<open>elf_getdata\<close> (NULL is \<open>None\<close>; \<^verbatim>\<open>d_size\<close> is the length of \<^verbatim>\<open>d_buf\<close>).
\<close>

record Elf_Scn =
  shdr_ok :: bool
  sh_name_str :: "string option"
  sh_type :: "32 word"
  d_data :: "string option"

text \<open>
  An \<^verbatim>\<open>Elf\<close> descriptor: \<^verbatim>\<open>elf_kind\<close>, the \<^verbatim>\<open>e_ident\<close> bytes of \<^verbatim>\<open>gelf_getehdr\<close> (NULL is \<open>None\<close>),
  \<^verbatim>\<open>gelf_getclass\<close>, the index \<^verbatim>\<open>elf_getshdrstrndx\<close> yields (\<open>None\<close> when it fails) and the
  sections in the order of \<^verbatim>\<open>elf_nextscn\<close>.  A file is what \<^verbatim>\<open>elf_version\<close>, \<^verbatim>\<open>open\<close> and
  \<^verbatim>\<open>elf_begin\<close> make of it.
\<close>

record Elf =
  elf_kind :: nat
  ehdr_ident :: "string option"
  elf_class :: int
  shdrstrndx :: "nat option"
  sections :: "Elf_Scn list"

record elf_file =
  elf_version_ok :: bool
  openable :: bool
  elf_begin :: "Elf option"

text \<open>
  A C object that has or has not been assigned yet.  Reading an indeterminate object is
  undefined.
\<close>

datatype 'a cvar = Indeterminate | Init 'a

record ksymtab_elf =
  elf :: Elf
  shstrndx :: nat
  strtab :: "string cvar"
  strtab_size :: "nat cvar"

text \<open>
  The resources a binary handle holds: open descriptors, live \<^verbatim>\<open>Elf\<close> descriptors and
  allocated \<^verbatim>\<open>struct ksymtab_elf\<close> objects.
\<close>

record resources =
  open_fds :: nat
  elf_handles :: nat
  ke_allocs :: nat

text \<open>
  The scan of \<^verbatim>\<open>ksymtab_elf_get_section\<close>: the first section of that name, none when the
  scan runs off the end, and the process ends on a header or a name that cannot be read
  before a match.
\<close>

fun find_scn :: "Elf_Scn list \<Rightarrow> string \<Rightarrow> Elf_Scn option res" where
  "find_scn [] section = Ok None"
| "find_scn (scn # rest) section =
     (if \<not> shdr_ok scn then Fatal GetshdrFailed
      else
        (case sh_name_str scn of
           None \<Rightarrow> Fatal StrptrFailed
         | Some name \<Rightarrow> if name = section then Ok (Some scn) else find_scn rest section))"

text \<open>
  \<open>Ok None\<close> is the return value \<open>-1\<close>, which leaves \<^verbatim>\<open>*d_data\<close> and \<^verbatim>\<open>*size\<close> untouched;
  \<open>Ok (Some d_buf)\<close> is the return value \<open>0\<close> with \<^verbatim>\<open>*d_data = d_buf\<close> and
  \<^verbatim>\<open>*size = length d_buf\<close>.
\<close>

definition ksymtab_elf_get_section :: "ksymtab_elf \<Rightarrow> string \<Rightarrow> string option res" where
  "ksymtab_elf_get_section ke section =
     (case find_scn (sections (elf ke)) section of
        Fatal e \<Rightarrow> Fatal e
      | Undefined \<Rightarrow> Undefined
      | Ok None \<Rightarrow> Ok None
      | Ok (Some scn) \<Rightarrow>
          if sh_type scn = SHT_NOBITS then Fatal SectionNobits
          else if \<not> shdr_ok scn then Fatal GetshdrFailed
          else
            (case d_data scn of
               None \<Rightarrow> Fatal SectionEmpty
             | Some d_buf \<Rightarrow> if length d_buf = 0 then Fatal SectionEmpty else Ok (Some d_buf)))"

text \<open>
  \<^verbatim>\<open>ksymtab_elf_open\<close>.  The locals \<^verbatim>\<open>strtab\<close> and \<^verbatim>\<open>strtab_size\<close> are declared without a value;
  the result of the look-up of \<^verbatim>\<open>.strtab\<close> is not tested, and the locals are stored in the
  handle whatever it was: the fields \<open>strtab\<close> and \<open>strtab_size\<close> of \<open>ke\<close> below stand for the
  two locals until the look-up assigns them.  Both \<^verbatim>\<open>goto done\<close> return NULL with the
  descriptor and the \<^verbatim>\<open>Elf\<close> still open.
\<close>

definition ksymtab_elf_open :: "resources \<Rightarrow> elf_file \<Rightarrow> ksymtab_elf option res \<times> resources" where
  "ksymtab_elf_open rs f =
     (if \<not> elf_version_ok f then (Fatal ElfVersionFailed, rs)
      else if \<not> openable f then (Fatal OpenFailed, rs)
      else
        (let rs1 = rs\<lparr>open_fds := Suc (open_fds rs)\<rparr> in
         case elf_begin f of
           None \<Rightarrow> (Fatal ElfBeginFailed, rs1)
         | Some e \<Rightarrow>
             (let rs2 = rs1\<lparr>elf_handles := Suc (elf_handles rs1)\<rparr> in
              if elf_kind e \<noteq> ELF_K_ELF then (Ok None, rs2)
              else
                (case ehdr_ident e of
                   None \<Rightarrow> (Fatal GetehdrFailed, rs2)
                 | Some e_ident \<Rightarrow>
                     if take SELFMAG e_ident \<noteq> ELFMAG then (Ok None, rs2)
                     else if elf_class e \<noteq> ELFCLASS64 then (Fatal UnsupportedElfClass, rs2)
                     else
                       (case shdrstrndx e of
                          None \<Rightarrow> (Fatal GetshdrstrndxFailed, rs2)
                        | Some ndx \<Rightarrow>
                            (let rs3 = rs2\<lparr>ke_allocs := Suc (ke_allocs rs2)\<rparr>;
                                 ke = \<lparr>elf = e, shstrndx = ndx, strtab = Indeterminate,
                                       strtab_size = Indeterminate\<rparr>
                             in case ksymtab_elf_get_section ke STRTAB of
                                  Fatal err \<Rightarrow> (Fatal err, rs3)
                                | Undefined \<Rightarrow> (Undefined, rs3)
                                | Ok None \<Rightarrow> (Ok (Some ke), rs3)
                                | Ok (Some d_buf) \<Rightarrow>
                                    (Ok (Some (ke\<lparr>strtab := Init d_buf, strtab_size := Init (length d_buf)\<rparr>)),
                                     rs3)))))))"

definition ksymtab_elf_close :: "resources \<Rightarrow> ksymtab_elf \<Rightarrow> resources" where
  "ksymtab_elf_close rs ke =
     rs\<lparr>elf_handles := elf_handles rs - 1, open_fds := open_fds rs - 1, ke_allocs := ke_allocs rs - 1\<rparr>"

section \<open>The enumerator of the symbol table\<close>

text \<open>
  \<^verbatim>\<open>Elf64_Sym\<close> as \<^verbatim>\<open>elf.h\<close> lays it out on a little-endian LP64 host, which is what the cast
  of the section data to \<^verbatim>\<open>Elf64_Sym *\<close> reads: 24 bytes, \<^verbatim>\<open>st_name\<close> at 0 (4 bytes),
  \<^verbatim>\<open>st_info\<close> at 4, \<^verbatim>\<open>st_other\<close> at 5, \<^verbatim>\<open>st_shndx\<close> at 6 (2 bytes), \<^verbatim>\<open>st_value\<close> at 8 and
  \<^verbatim>\<open>st_size\<close> at 16 (8 bytes each).
\<close>

record Elf64_Sym =
  st_name :: "32 word"
  st_info :: "8 word"
  st_other :: "8 word"
  st_shndx :: "16 word"
  st_value :: u64
  st_size :: u64

definition sizeof_Elf64_Sym :: nat where
  "sizeof_Elf64_Sym = 24"

fun le_nat :: "string \<Rightarrow> nat" where
  "le_nat [] = 0"
| "le_nat (c # cs) = of_char c + 256 * le_nat cs"

definition Elf64_Sym_at :: "string \<Rightarrow> nat \<Rightarrow> Elf64_Sym" where
  "Elf64_Sym_at data off =
     \<lparr>st_name = of_nat (le_nat (take 4 (drop off data))),
      st_info = of_nat (le_nat (take 1 (drop (off + 4) data))),
      st_other = of_nat (le_nat (take 1 (drop (off + 5) data))),
      st_shndx = of_nat (le_nat (take 2 (drop (off + 6) data))),
      st_value = of_nat (le_nat (take 8 (drop (off + 8) data))),
      st_size = of_nat (le_nat (take 8 (drop (off + 16) data)))\<rparr>"

text \<open>
  The handler receives \<^verbatim>\<open>name\<close>, \<^verbatim>\<open>value\<close>, \<^verbatim>\<open>binding\<close> and its context; it may end the process
  or read outside the region \<^verbatim>\<open>name\<close> points into.
\<close>

type_synonym 'c sym_handler = "cptr \<Rightarrow> u64 \<Rightarrow> int \<Rightarrow> 'c \<Rightarrow> 'c res"

text \<open>
  The loop of \<^verbatim>\<open>ksymtab_elf_for_each_global_sym\<close>; \<open>sym_off\<close> is the offset of \<^verbatim>\<open>sym\<close> in \<open>data\<close> and
  \<^verbatim>\<open>end\<close> is \<open>length data\<close>.  An entry that starts before \<^verbatim>\<open>end\<close> and does not fit in the
  section is read outside it.  \<^verbatim>\<open>ke->strtab_size\<close> and \<^verbatim>\<open>ke->strtab\<close> are read when a kept
  entry is reached.  The test \<^verbatim>\<open>name == NULL\<close> cannot succeed on a pointer into a region and
  has no branch.
\<close>

function sym_loop :: "ksymtab_elf \<Rightarrow> 'c sym_handler \<Rightarrow> string \<Rightarrow> nat \<Rightarrow> 'c \<Rightarrow> 'c res" where
  "sym_loop ke fn data sym_off ctx =
     (if sym_off < length data then
        (if length data < sym_off + sizeof_Elf64_Sym then Undefined
         else
           (let s = Elf64_Sym_at data sym_off;
                binding = ELF64_ST_BIND (st_info s)
            in if \<not> (binding = STB_GLOBAL \<or> binding = STB_WEAK)
               then sym_loop ke fn data (sym_off + sizeof_Elf64_Sym) ctx
               else if st_name s = 0
               then sym_loop ke fn data (sym_off + sizeof_Elf64_Sym) ctx
               else
                 (case (strtab ke, strtab_size ke) of
                    (Init tab, Init tab_size) \<Rightarrow>
                      if tab_size < unat (st_name s) then Fatal SymbolNameIndexOutOfRange
                      else
                        (case fn (tab, unat (st_name s)) (st_value s) binding ctx of
                           Ok ctx' \<Rightarrow> sym_loop ke fn data (sym_off + sizeof_Elf64_Sym) ctx'
                         | Fatal e \<Rightarrow> Fatal e
                         | Undefined \<Rightarrow> Undefined)
                  | _ \<Rightarrow> Undefined)))
      else Ok ctx)"
  by pat_completeness auto
termination
  by (relation "measure (\<lambda>(ke, fn, data, sym_off, ctx). length data - sym_off)")
     (auto simp: sizeof_Elf64_Sym_def)

declare sym_loop.simps [simp del]

text \<open>
  When \<^verbatim>\<open>.symtab\<close> is absent the result \<open>-1\<close> is not tested and the locals \<^verbatim>\<open>data\<close> and
  \<^verbatim>\<open>size\<close> are read without having been assigned.  \<^verbatim>\<open>sym++\<close> skips the first record.
\<close>

definition ksymtab_elf_for_each_global_sym :: "ksymtab_elf \<Rightarrow> 'c sym_handler \<Rightarrow> 'c \<Rightarrow> 'c res" where
  "ksymtab_elf_for_each_global_sym ke fn ctx =
     (case ksymtab_elf_get_section ke SYMTAB of
        Fatal e \<Rightarrow> Fatal e
      | Undefined \<Rightarrow> Undefined
      | Ok None \<Rightarrow> Undefined
      | Ok (Some data) \<Rightarrow> sym_loop ke fn data sizeof_Elf64_Sym ctx)"

text \<open>\<^verbatim>\<open>symtab_handler\<close> prints one line; the context is the standard output so far.\<close>

type_synonym stdout = "(string \<times> u64 \<times> int) list"

definition symtab_handler :: "stdout sym_handler" where
  "symtab_handler name val binding out =
     (case read_c_string name of
        Ok text \<Rightarrow> Ok (out @ [(text, val, binding)])
      | Fatal e \<Rightarrow> Fatal e
      | Undefined \<Rightarrow> Undefined)"

section \<open>The top-level routine\<close>

text \<open>
  \<^verbatim>\<open>ksymtab_read\<close> returns the registry (NULL is \<open>None\<close>) beside the heap, the resources held
  and the standard output.  When the process ends in the enumerator the lines already
  printed are not kept.
\<close>

definition ksymtab_read ::
  "heap \<Rightarrow> resources \<Rightarrow> stdout \<Rightarrow> elf_file \<Rightarrow> addr option res \<times> heap \<times> resources \<times> stdout" where
  "ksymtab_read h rs out filename =
     (case ksymtab_elf_open rs filename of
        (Fatal e, rs1) \<Rightarrow> (Fatal e, h, rs1, out)
      | (Undefined, rs1) \<Rightarrow> (Undefined, h, rs1, out)
      | (Ok None, rs1) \<Rightarrow> (Ok None, h, rs1, out)
      | (Ok (Some ke), rs1) \<Rightarrow>
          (case ksymtab_elf_get_section ke KSYMTAB_STRINGS of
             Fatal e \<Rightarrow> (Fatal e, h, rs1, out)
           | Undefined \<Rightarrow> (Undefined, h, rs1, out)
           | Ok None \<Rightarrow> (Ok None, h, ksymtab_elf_close rs1 ke, out)
           | Ok (Some data) \<Rightarrow>
               (case parse_ksymtab_strings h data of
                  (Fatal e, h1) \<Rightarrow> (Fatal e, h1, rs1, out)
                | (Undefined, h1) \<Rightarrow> (Undefined, h1, rs1, out)
                | (Ok res, h1) \<Rightarrow>
                    (case ksymtab_elf_for_each_global_sym ke symtab_handler out of
                       Fatal e \<Rightarrow> (Fatal e, h1, rs1, out)
                     | Undefined \<Rightarrow> (Undefined, h1, rs1, out)
                     | Ok out' \<Rightarrow> (Ok (Some res), h1, ksymtab_elf_close rs1 ke, out')))))"

section \<open>Notions the properties are stated with\<close>

text \<open>
  The splitter as the specification words it: every NUL byte ends one candidate span that
  starts after the previous NUL; \<open>cur\<close> is the span read so far.  Bytes after the last NUL
  end no span.
\<close>

fun nul_spans :: "string \<Rightarrow> string \<Rightarrow> string list" where
  "nul_spans cur [] = []"
| "nul_spans cur (c # cs) = (if c = NUL then cur # nul_spans [] cs else nul_spans (cur @ [c]) cs)"

definition nonempty_spans :: "string \<Rightarrow> string list" where
  "nonempty_spans d_buf = filter (\<lambda>s. s \<noteq> []) (nul_spans [] d_buf)"

text \<open>
  The insertions of the splitter as the specification words them: one addition to the
  registry for each non-empty span, in order, with the index counting on from \<open>n\<close>.
\<close>

fun insert_all :: "heap \<Rightarrow> addr \<Rightarrow> nat \<Rightarrow> string list \<Rightarrow> heap res" where
  "insert_all h res n [] = Ok h"
| "insert_all h res n (s # ss) =
     (case ksymtab_add_sym h res s (length s) (of_nat n) of
        Ok (new, h') \<Rightarrow> insert_all h' res (Suc n) ss
      | Fatal e \<Rightarrow> Fatal e
      | Undefined \<Rightarrow> Undefined)"

text \<open>
  What a registry with distinct names holds for the non-empty spans \<open>names\<close> numbered from
  \<open>n\<close>: each under its own text, with its index.
\<close>

definition stored :: "nat \<Rightarrow> string list \<Rightarrow> (string \<times> string \<times> u64) list" where
  "stored n names = map (\<lambda>(j, s). (s, s, of_nat j)) (enumerate n names)"

text \<open>
  The record \<^verbatim>\<open>ksymtab_add_sym\<close> creates in the registry \<open>res\<close> for the name \<open>s\<close> and the index \<open>j\<close>,
  and what a record shows: its name, its value as a number, its mark flag, its link and its
  owner.
\<close>

definition new_ksym :: "addr \<Rightarrow> nat \<Rightarrow> string \<Rightarrow> ksym" where
  "new_ksym res j s =
     \<lparr>ksym_value = of_nat j, ksym_mark = False, ksym_link = None, ksym_ksymtab = res, ksym_key = s\<rparr>"

definition ksym_view :: "ksym \<Rightarrow> string \<times> nat \<times> bool \<times> addr option \<times> addr" where
  "ksym_view k = (ksym_key k, unat (ksym_value k), ksym_mark k, ksym_link k, ksym_ksymtab k)"

text \<open>
  The entries of a registry, oldest first: the key each is stored under, the name of its
  record and the value of its record.
\<close>

definition ksymtab_records :: "heap \<Rightarrow> addr \<Rightarrow> (string \<times> string \<times> u64) list" where
  "ksymtab_records h a =
     (case ksymtabs h a of
        None \<Rightarrow> []
      | Some t \<Rightarrow>
          concat (map (\<lambda>(key, v). case ksyms h v of
                                       None \<Rightarrow> []
                                     | Some k \<Rightarrow> [(key, ksym_key k, ksym_value k)])
                      (rev (hash t))))"

definition empty_heap :: heap where
  "empty_heap = \<lparr>ksymtabs = Map.empty, ksyms = Map.empty, strings = Map.empty, brk = 0\<rparr>"

text \<open>
  A small heap built with the operations: one registry, at address 0, holding the record
  \<open>foo\<close> with value 0, at address 1.
\<close>

definition example_heap :: heap where
  "example_heap =
     (case ksymtab_add_sym (snd (ksymtab_new empty_heap KSYMTAB_SIZE)) 0 ''foo'' 3 0 of
        Ok (new, h) \<Rightarrow> h
      | Fatal e \<Rightarrow> empty_heap
      | Undefined \<Rightarrow> empty_heap)"

text \<open>
  The same heap after the record has been given the link \<open>alias\<close>: the caller's string is at
  address 2 and the record's own copy of it at address 3.
\<close>

definition linked_heap :: heap where
  "linked_heap =
     (case ksymtab_ksym_set_link (snd (strdup example_heap ''alias'')) 1 (Some 2) of
        Ok h \<Rightarrow> h
      | Fatal e \<Rightarrow> empty_heap
      | Undefined \<Rightarrow> empty_heap)"

text \<open>
  The heap of the small example after its record has been marked; that heap after a second
  record has been added under the same name \<open>foo\<close>, at address 2; and the heap \<open>linked_heap\<close>
  with a second, empty registry, at address 4.
\<close>

definition marked_heap :: heap where
  "marked_heap =
     (case ksymtab_ksym_mark example_heap 1 of
        Ok h \<Rightarrow> h
      | Fatal e \<Rightarrow> empty_heap
      | Undefined \<Rightarrow> empty_heap)"

definition displaced_heap :: heap where
  "displaced_heap =
     (case ksymtab_add_sym marked_heap 0 ''foo'' 3 1 of
        Ok (new, h) \<Rightarrow> h
      | Fatal e \<Rightarrow> empty_heap
      | Undefined \<Rightarrow> empty_heap)"

definition two_registry_heap :: heap where
  "two_registry_heap = snd (ksymtab_new linked_heap KSYMTAB_SIZE)"

text \<open>
  The heap the splitter leaves when it is run in the empty heap on the nine bytes
  \<open>foo\<close>, NUL, NUL, \<open>bar\<close>, NUL: the registry is at address 0.
\<close>

definition split_heap :: heap where
  "split_heap = snd (parse_ksymtab_strings empty_heap (''foo'' @ [NUL, NUL] @ ''bar'' @ [NUL]))"

text \<open>
  The heaps the registry operations build: from the empty heap by creating registries,
  adding records, marking records, setting links and allocating strings (the texts a caller
  passes as links).  \<^verbatim>\<open>ksymtab_copy_sym\<close> is an addition followed by a link assignment.
\<close>

inductive reachable :: "heap \<Rightarrow> bool" where
  reachable_empty: "reachable empty_heap"
| reachable_new: "reachable h \<Longrightarrow> reachable (snd (ksymtab_new h sz))"
| reachable_add_sym: "reachable h \<Longrightarrow> ksymtab_add_sym h ksymtab str len val = Ok (new, h') \<Longrightarrow> reachable h'"
| reachable_mark: "reachable h \<Longrightarrow> ksymtab_ksym_mark h ksym = Ok h' \<Longrightarrow> reachable h'"
| reachable_set_link: "reachable h \<Longrightarrow> ksymtab_ksym_set_link h ksym link = Ok h' \<Longrightarrow> reachable h'"
| reachable_strdup: "reachable h \<Longrightarrow> reachable (snd (strdup h text))"

text \<open>
  The mark flag of the record at an address; the marked entries of a registry; and the
  records of a registry: the live records whose back pointer names it, entries or not.
\<close>

definition is_marked_at :: "heap \<Rightarrow> addr \<Rightarrow> bool" where
  "is_marked_at h p = (case ksyms h p of None \<Rightarrow> False | Some k \<Rightarrow> ksymtab_ksym_is_marked k)"

definition marked_records :: "heap \<Rightarrow> ksymtab \<Rightarrow> addr list" where
  "marked_records h t = filter (is_marked_at h) (map snd (hash t))"

definition is_owned_by :: "heap \<Rightarrow> addr \<Rightarrow> addr \<Rightarrow> bool" where
  "is_owned_by h r p = (case ksyms h p of None \<Rightarrow> False | Some k \<Rightarrow> ksym_ksymtab k = r)"

definition owned_records :: "heap \<Rightarrow> addr \<Rightarrow> addr list" where
  "owned_records h r = filter (is_owned_by h r) [0..<brk h]"

text \<open>
  A registry none of whose records has been displaced: every live record whose back pointer
  names it is still an entry of its container.  This is so as long as no name has been
  added to it twice.
\<close>

definition all_entered :: "heap \<Rightarrow> addr \<Rightarrow> bool" where
  "all_entered h r =
     (case ksymtabs h r of
        None \<Rightarrow> False
      | Some t \<Rightarrow> list_all (\<lambda>p. p \<in> set (map snd (hash t))) (owned_records h r))"

text \<open>
  The text of the link of the record at an address: \<open>Ok None\<close> for a NULL link; undefined
  when the record or the string it points to is not live.
\<close>

definition ksym_link_text :: "heap \<Rightarrow> addr \<Rightarrow> string option res" where
  "ksym_link_text h p =
     (case ksyms h p of
        None \<Rightarrow> Undefined
      | Some k \<Rightarrow>
          (case ksym_link k of
             None \<Rightarrow> Ok None
           | Some l \<Rightarrow> (case strings h l of None \<Rightarrow> Undefined | Some text \<Rightarrow> Ok (Some text))))"

text \<open>
  The invariant of the reachable heaps.  Live addresses lie below \<open>brk\<close>; the entries of a
  registry have distinct keys and are distinct live records whose back pointer is that
  registry, each stored under the text of its own name; the back pointer of a live record
  names a live registry; the mark count is the number of marked records of the registry, as
  a 64-bit value; a link points to a live string, and no two records share one.
\<close>

definition inv_brk :: "heap \<Rightarrow> bool" where
  "inv_brk h \<longleftrightarrow>
     (\<forall>a. (a \<in> dom (ksymtabs h) \<or> a \<in> dom (ksyms h) \<or> a \<in> dom (strings h)) \<longrightarrow> a < brk h)"

definition inv_owner :: "heap \<Rightarrow> bool" where
  "inv_owner h \<longleftrightarrow>
     (\<forall>r t. ksymtabs h r = Some t \<longrightarrow>
        distinct (map snd (hash t)) \<and> distinct (map fst (hash t)) \<and>
        (\<forall>e \<in> set (hash t). \<exists>k. ksyms h (snd e) = Some k \<and> ksym_ksymtab k = r \<and>
                                 fst e = c_str (ksym_key k))) \<and>
     (\<forall>p k. ksyms h p = Some k \<longrightarrow> ksymtabs h (ksym_ksymtab k) \<noteq> None)"

definition inv_count :: "heap \<Rightarrow> bool" where
  "inv_count h \<longleftrightarrow>
     (\<forall>r t. ksymtabs h r = Some t \<longrightarrow>
        mark_count t = of_nat (length (filter (is_marked_at h) (owned_records h r))))"

definition inv_link :: "heap \<Rightarrow> bool" where
  "inv_link h \<longleftrightarrow>
     (\<forall>p k l. ksyms h p = Some k \<and> ksym_link k = Some l \<longrightarrow>
        strings h l \<noteq> None \<and>
        (\<forall>q k'. ksyms h q = Some k' \<and> ksym_link k' = Some l \<longrightarrow> q = p))"

definition heap_inv :: "heap \<Rightarrow> bool" where
  "heap_inv h \<longleftrightarrow> inv_brk h \<and> inv_owner h \<and> inv_count h \<and> inv_link h"

text \<open>The strings left after the \<^verbatim>\<open>free\<close> of the link of a record.\<close>

definition strings_freed :: "heap \<Rightarrow> ksym \<Rightarrow> (addr \<rightharpoonup> string)" where
  "strings_freed h k = (case ksym_link k of None \<Rightarrow> strings h | Some l \<Rightarrow> (strings h)(l := None))"

text \<open>
  A registry whose only record was added with length 0, so that its name is empty.
\<close>

definition empty_key_heap :: heap where
  "empty_key_heap =
     (case ksymtab_add_sym (snd (ksymtab_new empty_heap KSYMTAB_SIZE)) 0 [NUL] 0 7 of
        Ok (new, h) \<Rightarrow> h
      | Fatal e \<Rightarrow> empty_heap
      | Undefined \<Rightarrow> empty_heap)"

text \<open>
  The enumerator as the specification words it.  The entries of a symbol table are the
  records of 24 bytes it is made of; an entry is kept when its binding is global or weak and
  its name index is not zero; the handler is invoked on the kept entries, in order, with the
  pointer into the string table, the value and the binding, until it ends the run itself.
\<close>

definition symtab_entries :: "string \<Rightarrow> Elf64_Sym list" where
  "symtab_entries data =
     map (\<lambda>i. Elf64_Sym_at data (i * sizeof_Elf64_Sym)) [0..<length data div sizeof_Elf64_Sym]"

definition sym_kept :: "Elf64_Sym \<Rightarrow> bool" where
  "sym_kept s \<longleftrightarrow>
     (ELF64_ST_BIND (st_info s) = STB_GLOBAL \<or> ELF64_ST_BIND (st_info s) = STB_WEAK) \<and> st_name s \<noteq> 0"

fun handle_all :: "'c sym_handler \<Rightarrow> string \<Rightarrow> Elf64_Sym list \<Rightarrow> 'c \<Rightarrow> 'c res" where
  "handle_all fn tab [] ctx = Ok ctx"
| "handle_all fn tab (s # ss) ctx =
     (case fn (tab, unat (st_name s)) (st_value s) (ELF64_ST_BIND (st_info s)) ctx of
        Ok ctx' \<Rightarrow> handle_all fn tab ss ctx'
      | Fatal e \<Rightarrow> Fatal e
      | Undefined \<Rightarrow> Undefined)"

text \<open>A handler that only records what it is called with.\<close>

definition record_call :: "(cptr \<times> u64 \<times> int) list sym_handler" where
  "record_call name val binding calls = Ok (calls @ [(name, val, binding)])"

text \<open>
  A 64-bit ELF file in good order: the kind and the magic bytes are those of ELF, the class
  is 64-bit, the section header string index can be had, every section header and section
  name can be read, and a section called \<^verbatim>\<open>.strtab\<close> is neither stripped nor empty.
\<close>

definition valid_elf64 :: "Elf \<Rightarrow> bool" where
  "valid_elf64 e \<longleftrightarrow>
     elf_kind e = ELF_K_ELF \<and>
     (\<exists>e_ident. ehdr_ident e = Some e_ident \<and> take SELFMAG e_ident = ELFMAG) \<and>
     elf_class e = ELFCLASS64 \<and>
     shdrstrndx e \<noteq> None \<and>
     (\<forall>scn \<in> set (sections e). shdr_ok scn \<and> sh_name_str scn \<noteq> None) \<and>
     (\<forall>scn \<in> set (sections e). sh_name_str scn = Some STRTAB \<longrightarrow>
        sh_type scn \<noteq> SHT_NOBITS \<and> (\<exists>d. d_data scn = Some d \<and> d \<noteq> []))"

text \<open>
  Test data.  \<open>le_bytes k n\<close> are the \<open>k\<close> little-endian bytes of \<open>n\<close>, and
  \<open>Elf64_Sym_bytes\<close> the 24 bytes of an entry with the given name index, info byte and
  value.  \<open>SHT_PROGBITS\<close>, \<open>SHT_SYMTAB\<close> and \<open>SHT_STRTAB\<close> are 1, 2 and 3.
\<close>

fun le_bytes :: "nat \<Rightarrow> nat \<Rightarrow> string" where
  "le_bytes 0 n = []"
| "le_bytes (Suc k) n = char_of (n mod 256) # le_bytes k (n div 256)"

definition Elf64_Sym_bytes :: "nat \<Rightarrow> nat \<Rightarrow> nat \<Rightarrow> string" where
  "Elf64_Sym_bytes name info val =
     le_bytes 4 name @ le_bytes 1 info @ le_bytes 1 0 @ le_bytes 2 0 @ le_bytes 8 val @ le_bytes 8 0"

definition elf64_of :: "Elf_Scn list \<Rightarrow> elf_file" where
  "elf64_of scns =
     \<lparr>elf_version_ok = True, openable = True,
      elf_begin = Some \<lparr>elf_kind = 3, ehdr_ident = Some (ELFMAG @ [CHR 0x02, CHR 0x01, CHR 0x01]),
                        elf_class = 2, shdrstrndx = Some 1, sections = scns\<rparr>\<rparr>"

definition scn_of :: "string \<Rightarrow> 32 word \<Rightarrow> string \<Rightarrow> Elf_Scn" where
  "scn_of name type bytes = \<lparr>shdr_ok = True, sh_name_str = Some name, sh_type = type, d_data = Some bytes\<rparr>"

text \<open>
  A string table of three bytes, \<open>NUL a NUL\<close>, and symbol tables over it.  Info byte
  \<open>0x12\<close> is a global function, \<open>0x22\<close> a weak one, \<open>0x02\<close> a local one.
\<close>

definition strtab_a :: string where
  "strtab_a = [NUL, CHR ''a'', NUL]"

definition symtab_mixed :: string where
  "symtab_mixed =
     Elf64_Sym_bytes 0 0 0 @ Elf64_Sym_bytes 1 0x02 0x10 @ Elf64_Sym_bytes 1 0x12 0x20 @
     Elf64_Sym_bytes 1 0x22 0x30 @ Elf64_Sym_bytes 0 0x12 0x40"

definition mixed_ke :: ksymtab_elf where
  "mixed_ke =
     \<lparr>elf = \<lparr>elf_kind = 3, ehdr_ident = Some (ELFMAG @ [CHR 0x02, CHR 0x01, CHR 0x01]), elf_class = 2,
             shdrstrndx = Some 1,
             sections = [scn_of STRTAB 3 strtab_a, scn_of SYMTAB 2 symtab_mixed]\<rparr>,
      shstrndx = 1, strtab = Init strtab_a, strtab_size = Init 3\<rparr>"

text \<open>A symbol table whose global entry has the length of the string table as name index.\<close>

definition symtab_at_end :: string where
  "symtab_at_end = Elf64_Sym_bytes 0 0 0 @ Elf64_Sym_bytes 3 0x12 0x1000"

definition at_end_file :: elf_file where
  "at_end_file = elf64_of [scn_of STRTAB 3 strtab_a, scn_of SYMTAB 2 symtab_at_end]"

definition at_end_ke :: ksymtab_elf where
  "at_end_ke =
     \<lparr>elf = \<lparr>elf_kind = 3, ehdr_ident = Some (ELFMAG @ [CHR 0x02, CHR 0x01, CHR 0x01]), elf_class = 2,
             shdrstrndx = Some 1,
             sections = [scn_of STRTAB 3 strtab_a, scn_of SYMTAB 2 symtab_at_end]\<rparr>,
      shstrndx = 1, strtab = Init strtab_a, strtab_size = Init 3\<rparr>"

text \<open>A 64-bit ELF file with a symbol table and no \<^verbatim>\<open>.strtab\<close> section.\<close>

definition no_strtab_file :: elf_file where
  "no_strtab_file = elf64_of [scn_of ''.text'' 1 [CHR 0x90], scn_of SYMTAB 2 symtab_at_end]"

definition no_strtab_ke :: ksymtab_elf where
  "no_strtab_ke =
     \<lparr>elf = \<lparr>elf_kind = 3, ehdr_ident = Some (ELFMAG @ [CHR 0x02, CHR 0x01, CHR 0x01]), elf_class = 2,
             shdrstrndx = Some 1,
             sections = [scn_of ''.text'' 1 [CHR 0x90], scn_of SYMTAB 2 symtab_at_end]\<rparr>,
      shstrndx = 1, strtab = Indeterminate, strtab_size = Indeterminate\<rparr>"

text \<open>A file that is not ELF, and a 64-bit ELF file without \<^verbatim>\<open>__ksymtab_strings\<close>.\<close>

definition not_elf_file :: elf_file where
  "not_elf_file =
     \<lparr>elf_version_ok = True, openable = True,
      elf_begin = Some \<lparr>elf_kind = 0, ehdr_ident = None, elf_class = 0, shdrstrndx = None,
                        sections = []\<rparr>\<rparr>"

definition no_resources :: resources where
  "no_resources = \<lparr>open_fds = 0, elf_handles = 0, ke_allocs = 0\<rparr>"

section \<open>Properties of the splitter\<close>

lemma add_sym_take:
  "len \<le> length str \<Longrightarrow>
     ksymtab_add_sym h res str len v = ksymtab_add_sym h res (take len str) len v"
  by (auto simp: ksymtab_add_sym_def Let_def split: option.splits)

lemma parse_loop_insert_all:
  assumes "oldp \<le> sz" "sz \<le> length d_buf"
  shows "parse_loop d_buf sz oldp (of_nat n) res h
     = insert_all h res n
         (filter (\<lambda>s. s \<noteq> []) (nul_spans (take (sz - oldp) (drop oldp d_buf)) (drop sz d_buf)))"
  using assms
proof (induction d_buf sz oldp "of_nat n :: u64" res h arbitrary: n rule: parse_loop.induct)
  case (1 d_buf sz oldp res h)
  show ?case
  proof (cases "sz < length d_buf")
    case False
    have "parse_loop d_buf sz oldp (of_nat n) res h = Ok h"
      by (subst parse_loop.simps) (simp add: False)
    with False show ?thesis by simp
  next
    case True
    then have dr: "drop sz d_buf = d_buf ! sz # drop (Suc sz) d_buf"
      by (simp add: Cons_nth_drop_Suc)
    have tk: "take (Suc sz - oldp) (drop oldp d_buf) = take (sz - oldp) (drop oldp d_buf) @ [d_buf ! sz]"
      using True \<open>oldp \<le> sz\<close> by (simp add: Suc_diff_le take_Suc_conv_app_nth)
    have le: "Suc sz \<le> length d_buf" using True by simp
    show ?thesis
    proof (cases "d_buf ! sz = NUL")
      case notnul: False
      have "parse_loop d_buf sz oldp (of_nat n) res h = parse_loop d_buf (Suc sz) oldp (of_nat n) res h"
        using True notnul by (subst parse_loop.simps) simp
      also have "\<dots> = insert_all h res n (filter (\<lambda>s. s \<noteq> [])
          (nul_spans (take (Suc sz - oldp) (drop oldp d_buf)) (drop (Suc sz) d_buf)))"
        using 1(3)[OF True notnul refl _ le] \<open>oldp \<le> sz\<close> by simp
      finally show ?thesis by (simp add: dr notnul tk)
    next
      case nul: True
      show ?thesis
      proof (cases "sz - oldp = 0")
        case e: True
        have "parse_loop d_buf sz oldp (of_nat n) res h = parse_loop d_buf (Suc sz) (Suc sz) (of_nat n) res h"
          using True nul e by (subst parse_loop.simps) simp
        also have "\<dots> = insert_all h res n (filter (\<lambda>s. s \<noteq> []) (nul_spans [] (drop (Suc sz) d_buf)))"
          using 1(1)[OF True nul refl e refl _ le] by simp
        finally show ?thesis using e by (simp add: dr nul)
      next
        case ne: False
        let ?span = "take (sz - oldp) (drop oldp d_buf)"
        have len: "sz - oldp \<le> length (drop oldp d_buf)" using True by simp
        have ls: "length ?span = sz - oldp" using len by simp
        have sn: "?span \<noteq> []" using ne ls by auto
        have add: "ksymtab_add_sym h res (drop oldp d_buf) (sz - oldp) (of_nat n)
            = ksymtab_add_sym h res ?span (length ?span) (of_nat n)"
          using add_sym_take[OF len] ls by simp
        have n1: "of_nat n + 1 = (of_nat (Suc n) :: u64)" by simp
        have spans: "filter (\<lambda>s. s \<noteq> []) (nul_spans ?span (drop sz d_buf))
            = ?span # filter (\<lambda>s. s \<noteq> []) (nul_spans [] (drop (Suc sz) d_buf))"
          using sn by (simp add: dr nul)
        show ?thesis
        proof (cases "ksymtab_add_sym h res (drop oldp d_buf) (sz - oldp) (of_nat n)")
          case (Ok x)
          obtain new h1 where x: "x = (new, h1)" by (cases x)
          have "parse_loop d_buf sz oldp (of_nat n) res h
              = parse_loop d_buf (Suc sz) (Suc sz) (of_nat (Suc n)) res h1"
            using True nul ne Ok x by (subst parse_loop.simps) (simp add: Let_def add.commute)
          also have "\<dots> = insert_all h1 res (Suc n) (filter (\<lambda>s. s \<noteq> []) (nul_spans [] (drop (Suc sz) d_buf)))"
            using 1(2)[OF True nul refl ne Ok[unfolded x] refl n1 _ le] by simp
          finally show ?thesis
            unfolding spans using Ok x add by simp
        next
          case (Fatal e)
          then show ?thesis
            unfolding spans using True nul ne add
            by (subst parse_loop.simps) (simp add: Let_def)
        next
          case Undefined
          then show ?thesis
            unfolding spans using True nul ne add
            by (subst parse_loop.simps) (simp add: Let_def)
        qed
      qed
    qed
  qed
qed

lemma add_sym_Ok:
  assumes "ksymtabs h r = Some t"
  shows "ksymtab_add_sym h r s (length s) v =
     Ok (brk h, h\<lparr>ksymtabs := (ksymtabs h)(r \<mapsto> t\<lparr>hash := hash_add (hash t) s (brk h)\<rparr>),
                  ksyms := (ksyms h)(brk h \<mapsto> \<lparr>ksym_value = v, ksym_mark = False, ksym_link = None,
                                                ksym_ksymtab = r, ksym_key = s\<rparr>),
                  brk := Suc (brk h)\<rparr>)"
  using assms by (simp add: ksymtab_add_sym_def Let_def)

lemma hash_add_keys: "fst ` set (hash_add hs key v) = insert (c_str key) (fst ` set hs)"
  by (auto simp: hash_add_def)

lemma hash_add_fresh: "c_str key \<notin> fst ` set hs \<Longrightarrow> hash_add hs key v = (c_str key, v) # hs"
  by (force simp: hash_add_def filter_id_conv)

lemma hash_add_snd: "e \<in> set (hash_add hs key v) \<Longrightarrow> snd e = v \<or> e \<in> set hs"
  by (auto simp: hash_add_def)

lemma insert_all_created:
  assumes "ksymtabs h res = Some t"
  shows "\<exists>h' t'. insert_all h res n names = Ok h' \<and> ksymtabs h' res = Some t'
     \<and> brk h' = brk h + length names
     \<and> map (ksyms h') [brk h..<brk h'] = map (\<lambda>(j, s). Some (new_ksym res j s)) (enumerate n names)
     \<and> (\<forall>a<brk h. ksyms h' a = ksyms h a)
     \<and> fst ` set (hash t') = fst ` set (hash t) \<union> c_str ` set names"
  using assms
proof (induction names arbitrary: h t n)
  case Nil
  then show ?case by simp
next
  case (Cons s ss)
  let ?t1 = "t\<lparr>hash := hash_add (hash t) s (brk h)\<rparr>"
  let ?h1 = "h\<lparr>ksymtabs := (ksymtabs h)(res \<mapsto> ?t1),
               ksyms := (ksyms h)(brk h \<mapsto> \<lparr>ksym_value = of_nat n, ksym_mark = False, ksym_link = None,
                                             ksym_ksymtab = res, ksym_key = s\<rparr>),
               brk := Suc (brk h)\<rparr>"
  have add: "ksymtab_add_sym h res s (length s) (of_nat n) = Ok (brk h, ?h1)"
    using Cons.prems by (rule add_sym_Ok)
  have t1: "ksymtabs ?h1 res = Some ?t1" by simp
  from Cons.IH[OF t1, of "Suc n"] obtain h' t' where
    run: "insert_all ?h1 res (Suc n) ss = Ok h'" and t': "ksymtabs h' res = Some t'"
    and brk': "brk h' = brk ?h1 + length ss"
    and created: "map (ksyms h') [brk ?h1..<brk h'] = map (\<lambda>(j, s). Some (new_ksym res j s)) (enumerate (Suc n) ss)"
    and old: "\<forall>a<brk ?h1. ksyms h' a = ksyms ?h1 a"
    and keys: "fst ` set (hash t') = fst ` set (hash ?t1) \<union> c_str ` set ss"
    by blast
  have b: "brk h' = brk h + length (s # ss)" using brk' by simp
  have at_b: "ksyms h' (brk h) = Some (new_ksym res n s)"
    using old by (simp add: new_ksym_def)
  have "brk h < brk h'" using b by simp
  then have upt: "[brk h..<brk h'] = brk h # [Suc (brk h)..<brk h']"
    by (rule upt_conv_Cons)
  have c: "map (ksyms h') [brk h..<brk h'] = map (\<lambda>(j, s). Some (new_ksym res j s)) (enumerate n (s # ss))"
    using created at_b unfolding upt by simp
  have o: "\<forall>a<brk h. ksyms h' a = ksyms h a"
    using old by simp
  have k: "fst ` set (hash t') = fst ` set (hash t) \<union> c_str ` set (s # ss)"
    using keys by (auto simp: hash_add_keys)
  show ?case
    using run t' b c o k by (simp add: add)
qed

lemma records_frame:
  assumes "\<forall>e \<in> set hs. snd e \<noteq> b"
  shows "concat (map (\<lambda>(key, v). case ((ksyms h)(b \<mapsto> k0)) v of None \<Rightarrow> []
                                   | Some k \<Rightarrow> [(key, ksym_key k, ksym_value k)]) hs)
     = concat (map (\<lambda>(key, v). case ksyms h v of None \<Rightarrow> []
                                   | Some k \<Rightarrow> [(key, ksym_key k, ksym_value k)]) hs)"
  using assms by (intro arg_cong[where f=concat] map_cong refl) auto

lemma insert_all_distinct:
  assumes "ksymtabs h res = Some t" and "\<forall>e \<in> set (hash t). snd e < brk h"
    and "distinct names" and "\<forall>s \<in> set names. NUL \<notin> set s"
    and "set names \<inter> fst ` set (hash t) = {}"
  shows "\<exists>h' t'. insert_all h res n names = Ok h' \<and> ksymtabs h' res = Some t'
     \<and> ksymtab_records h' res = ksymtab_records h res @ stored n names
     \<and> length (hash t') = length (hash t) + length names"
  using assms
proof (induction names arbitrary: h t n)
  case Nil
  then show ?case by (simp add: stored_def)
next
  case (Cons s ss)
  have cs: "c_str s = s"
    using Cons.prems(4) unfolding c_str_def by auto
  have fresh: "c_str s \<notin> fst ` set (hash t)"
    using Cons.prems(5) cs by auto
  let ?t1 = "t\<lparr>hash := (s, brk h) # hash t\<rparr>"
  let ?k = "\<lparr>ksym_value = of_nat n, ksym_mark = False, ksym_link = None,
                                             ksym_ksymtab = res, ksym_key = s\<rparr>"
  let ?h1 = "h\<lparr>ksymtabs := (ksymtabs h)(res \<mapsto> ?t1), ksyms := (ksyms h)(brk h \<mapsto> ?k),
               brk := Suc (brk h)\<rparr>"
  have add: "ksymtab_add_sym h res s (length s) (of_nat n) = Ok (brk h, ?h1)"
    using add_sym_Ok[OF Cons.prems(1), of s "of_nat n"] hash_add_fresh[OF fresh] cs by simp
  have t1: "ksymtabs ?h1 res = Some ?t1" by simp
  have b1: "\<forall>e \<in> set (hash ?t1). snd e < brk ?h1"
    using Cons.prems(2) by (auto simp: less_Suc_eq)
  have d1: "distinct ss" and n1: "\<forall>s \<in> set ss. NUL \<notin> set s"
    using Cons.prems(3,4) by simp_all
  have i1: "set ss \<inter> fst ` set (hash ?t1) = {}"
    using Cons.prems(3,5) by auto
  have nb: "\<forall>e \<in> set (rev (hash t)). snd e \<noteq> brk h"
    using Cons.prems(2) by auto
  have r1: "ksymtab_records ?h1 res = ksymtab_records h res @ [(s, s, of_nat n)]"
    using Cons.prems(1) records_frame[OF nb, of h ?k]
    by (simp add: ksymtab_records_def)
  from Cons.IH[OF t1 b1 d1 n1 i1, of "Suc n"] obtain h' t' where
    "insert_all ?h1 res (Suc n) ss = Ok h'" "ksymtabs h' res = Some t'"
    "ksymtab_records h' res = ksymtab_records ?h1 res @ stored (Suc n) ss"
    "length (hash t') = length (hash ?t1) + length ss"
    by blast
  then show ?case
    by (simp add: add r1 stored_def)
qed

lemma nul_spans_no_nul:
  "NUL \<notin> set cur \<Longrightarrow> s \<in> set (nul_spans cur bs) \<Longrightarrow> NUL \<notin> set s"
proof (induction bs arbitrary: cur)
  case Nil
  then show ?case by simp
next
  case (Cons c cs)
  show ?case
  proof (cases "c = NUL")
    case True
    then have "s = cur \<or> s \<in> set (nul_spans [] cs)" using Cons.prems(2) by simp
    then show ?thesis
    proof
      assume "s = cur" then show ?thesis using Cons.prems(1) by simp
    next
      assume "s \<in> set (nul_spans [] cs)"
      then show ?thesis using Cons.IH[of "[]"] by simp
    qed
  next
    case False
    then have "s \<in> set (nul_spans (cur @ [c]) cs)" using Cons.prems(2) by simp
    moreover have "NUL \<notin> set (cur @ [c])" using Cons.prems(1) False by simp
    ultimately show ?thesis by (rule Cons.IH[rotated])
  qed
qed

lemma nonempty_spans_props:
  "s \<in> set (nonempty_spans d_buf) \<Longrightarrow> s \<noteq> [] \<and> NUL \<notin> set s \<and> c_str s = s"
  using nul_spans_no_nul[of "[]" s d_buf]
  by (auto simp: nonempty_spans_def c_str_def)

lemma length_nul_spans: "length (nul_spans cur bs) \<le> length bs"
  by (induction bs arbitrary: cur) (auto simp: le_SucI)

lemma length_nonempty_spans: "length (nonempty_spans d_buf) \<le> length d_buf"
  unfolding nonempty_spans_def
  using length_nul_spans[of "[]" d_buf] length_filter_le[of "\<lambda>s. s \<noteq> []" "nul_spans [] d_buf"]
  by (rule_tac order_trans)

lemma stored_unat:
  assumes "n + length ss \<le> 2 ^ 64"
  shows "map (\<lambda>(key, name, v). (key, name, unat v)) (stored n ss) = map (\<lambda>(j, s). (s, s, j)) (enumerate n ss)"
proof -
  have "unat (of_nat j :: u64) = j" if "(j, s) \<in> set (enumerate n ss)" for s j
  proof -
    have "j < 2 ^ 64" using that assms by (auto simp: in_set_enumerate_eq)
    then show ?thesis by (simp add: unat_of_nat)
  qed
  then show ?thesis
    unfolding stored_def by (auto simp: case_prod_beta)
qed

lemma created_view:
  assumes "n + length ss \<le> 2 ^ 64"
  shows "map (map_option ksym_view) (map (\<lambda>(j, s). Some (new_ksym res j s)) (enumerate n ss))
     = map (\<lambda>(j, s). Some (s, j, False, None, res)) (enumerate n ss)"
proof -
  have "unat (of_nat j :: u64) = j" if "(j, s) \<in> set (enumerate n ss)" for s j
  proof -
    have "j < 2 ^ 64" using that assms by (auto simp: in_set_enumerate_eq)
    then show ?thesis by (simp add: unat_of_nat)
  qed
  then show ?thesis
    by (auto simp: case_prod_beta ksym_view_def new_ksym_def)
qed

lemma parse_ksymtab_strings_run:
  assumes "d_buf \<noteq> []" and "last d_buf = NUL"
  shows "parse_ksymtab_strings h d_buf =
     (case insert_all (snd (ksymtab_new h KSYMTAB_SIZE)) (brk h) 0 (nonempty_spans d_buf) of
        Ok h2 \<Rightarrow> (Ok (brk h), h2)
      | Fatal e \<Rightarrow> (Fatal e, snd (ksymtab_new h KSYMTAB_SIZE))
      | Undefined \<Rightarrow> (Undefined, snd (ksymtab_new h KSYMTAB_SIZE)))"
proof -
  have last: "d_buf ! (length d_buf - Suc 0) = NUL"
    by (metis assms(1,2) last_conv_nth One_nat_def)
  have "parse_loop d_buf 0 0 (of_nat 0) res h1 = insert_all h1 res 0 (nonempty_spans d_buf)" for res h1
    using parse_loop_insert_all[of 0 0 d_buf 0 res h1] by (simp add: nonempty_spans_def)
  then show ?thesis
    using assms(1) last
    by (simp add: parse_ksymtab_strings_def ksymtab_new_def Let_def split: res.splits)
qed

text \<open>
  Claim C1.  On a blob that ends with NUL, of a length that fits \<^verbatim>\<open>size_t\<close>, the splitter
  returns a new registry after exactly one insertion for each non-empty span between NUL
  bytes, in order: the heap it leaves is the one after the calls of \<^verbatim>\<open>ksymtab_add_sym\<close> with
  the span, its length and the indices 0, 1, 2, ... that count the non-empty spans only.
  The records created lie at the addresses after the registry: each has the text of its
  span as name, its index as value, a clear mark, no link and the registry as owner.  When
  the spans are pairwise different, the registry holds exactly these records, each under
  its own text.
\<close>

theorem parse_ksymtab_strings_entries:
  assumes "d_buf \<noteq> []" and "last d_buf = NUL" and "length d_buf < 2 ^ 64"
  shows "\<exists>res h'. parse_ksymtab_strings h d_buf = (Ok res, h')
     \<and> res = brk h
     \<and> insert_all (snd (ksymtab_new h KSYMTAB_SIZE)) res 0 (nonempty_spans d_buf) = Ok h'
     \<and> brk h' = Suc res + length (nonempty_spans d_buf)
     \<and> map (map_option ksym_view) (map (ksyms h') [Suc res..<brk h'])
         = map (\<lambda>(j, s). Some (s, j, False, None, res)) (enumerate 0 (nonempty_spans d_buf))
     \<and> (distinct (nonempty_spans d_buf) \<longrightarrow>
           ksymtab_len h' (Some res) = Ok (length (nonempty_spans d_buf))
         \<and> map (\<lambda>(key, name, v). (key, name, unat v)) (ksymtab_records h' res)
             = map (\<lambda>(j, s). (s, s, j)) (enumerate 0 (nonempty_spans d_buf)))"
proof -
  let ?names = "nonempty_spans d_buf"
  let ?res = "brk h"
  let ?h1 = "snd (ksymtab_new h KSYMTAB_SIZE)"
  have t1: "ksymtabs ?h1 ?res = Some \<lparr>hash = [], mark_count = 0\<rparr>"
    and b1: "brk ?h1 = Suc ?res" and k1: "ksyms ?h1 = ksyms h"
    by (simp_all add: ksymtab_new_def Let_def hash_new_def)
  from insert_all_created[OF t1, of 0 ?names] obtain h' t' where
    run: "insert_all ?h1 ?res 0 ?names = Ok h'" and t': "ksymtabs h' ?res = Some t'"
    and brk': "brk h' = Suc ?res + length ?names"
    and created: "map (ksyms h') [Suc ?res..<brk h'] = map (\<lambda>(j, s). Some (new_ksym ?res j s)) (enumerate 0 ?names)"
    and old: "\<forall>a<Suc ?res. ksyms h' a = ksyms h a"
    unfolding b1 k1 by blast
  have p: "parse_ksymtab_strings h d_buf = (Ok ?res, h')"
    using parse_ksymtab_strings_run[OF assms(1,2), of h] run by simp
  have bound: "0 + length ?names \<le> 2 ^ 64"
    using length_nonempty_spans[of d_buf] assms(3) by simp
  have view: "map (map_option ksym_view) (map (ksyms h') [Suc ?res..<brk h'])
         = map (\<lambda>(j, s). Some (s, j, False, None, ?res)) (enumerate 0 ?names)"
    unfolding created by (rule created_view[OF bound])
  have dist: "ksymtab_len h' (Some ?res) = Ok (length ?names)
         \<and> map (\<lambda>(key, name, v). (key, name, unat v)) (ksymtab_records h' ?res)
             = map (\<lambda>(j, s). (s, s, j)) (enumerate 0 ?names)" if d: "distinct ?names"
  proof -
    have e1: "\<forall>e \<in> set (hash \<lparr>hash = [], mark_count = 0\<rparr>). snd e < brk ?h1" by simp
    have nn: "\<forall>s \<in> set ?names. NUL \<notin> set s" using nonempty_spans_props by blast
    have i1: "set ?names \<inter> fst ` set (hash \<lparr>hash = [], mark_count = 0\<rparr>) = {}" by simp
    from insert_all_distinct[OF t1 e1 d nn i1, of 0] run t'
    have recs: "ksymtab_records h' ?res = ksymtab_records ?h1 ?res @ stored 0 ?names"
      and len: "length (hash t') = length ?names"
      by auto
    have "ksymtab_records ?h1 ?res = []" by (simp add: ksymtab_records_def t1)
    then show ?thesis
      using recs len t' stored_unat[OF bound]
      by (simp add: ksymtab_len_def hash_get_count_def)
  qed
  show ?thesis
    using p run brk' view dist by (intro exI[of _ ?res] exI[of _ h']) simp
qed

theorem parse_ksymtab_strings_entries_witness:
  "\<exists>h'. parse_ksymtab_strings empty_heap (''foo'' @ [NUL, NUL] @ ''bar'' @ [NUL]) = (Ok 0, h')
     \<and> brk h' = 3
     \<and> map (map_option ksym_view) [ksyms h' 1, ksyms h' 2]
          = [Some (''foo'', 0, False, None, 0), Some (''bar'', 1, False, None, 0)]
     \<and> ksymtab_len h' (Some 0) = Ok 2
     \<and> map (\<lambda>(key, name, v). (key, name, unat v)) (ksymtab_records h' 0)
         = [(''foo'', ''foo'', 0), (''bar'', ''bar'', 1)]"
proof -
  let ?d = "''foo'' @ [NUL, NUL] @ ''bar'' @ [NUL]"
  have a: "?d \<noteq> []" and b: "last ?d = NUL" and c: "length ?d < 2 ^ 64"
    by simp_all
  have n: "nonempty_spans ?d = [''foo'', ''bar'']"
    by (simp add: nonempty_spans_def)
  have u: "[Suc 0..<3] = [1, 2]"
    by (simp add: upt_rec)
  from parse_ksymtab_strings_entries[OF a b c, of empty_heap]
  obtain res h' where p: "parse_ksymtab_strings empty_heap ?d = (Ok res, h')"
    and r: "brk h' = Suc res + length (nonempty_spans ?d)"
    and v: "map (map_option ksym_view) (map (ksyms h') [Suc res..<brk h'])
         = map (\<lambda>(j, s). Some (s, j, False, None, res)) (enumerate 0 (nonempty_spans ?d))"
    and d: "distinct (nonempty_spans ?d) \<longrightarrow>
           ksymtab_len h' (Some res) = Ok (length (nonempty_spans ?d))
         \<and> map (\<lambda>(key, name, v). (key, name, unat v)) (ksymtab_records h' res)
             = map (\<lambda>(j, s). (s, s, j)) (enumerate 0 (nonempty_spans ?d))"
    by blast
  have res: "res = 0"
    using p by (simp add: parse_ksymtab_strings_def ksymtab_new_def Let_def empty_heap_def
        split: res.splits if_splits)
  have b3: "brk h' = 3" using r res n by simp
  show ?thesis
    using p v d unfolding n res b3 u
    by (intro exI[of _ h']) (simp add: b3)
qed

text \<open>
  A blob whose last byte is not NUL but that holds a NUL byte: the process ends with the
  message about the malformed section, and the heap is the one right after \<^verbatim>\<open>ksymtab_new\<close>.
\<close>

lemma parse_ksymtab_strings_unterminated:
  assumes "d_buf \<noteq> []" and "last d_buf \<noteq> NUL" and "NUL \<in> set d_buf"
  shows "\<exists>h'. parse_ksymtab_strings h d_buf = (Fatal MalformedKsymtabStrings, h')
     \<and> h' = snd (ksymtab_new h KSYMTAB_SIZE)
     \<and> ksyms h' = ksyms h
     \<and> ksymtab_len h' (Some (fst (ksymtab_new h KSYMTAB_SIZE))) = Ok 0"
proof -
  have last: "d_buf ! (length d_buf - Suc 0) \<noteq> NUL"
    by (metis assms(1,2) last_conv_nth One_nat_def)
  have "read_c_string (d_buf, 0) = Ok (c_str d_buf)"
    using assms(1,3) by (simp add: read_c_string_def)
  then show ?thesis
    using assms(1) last
    by (simp add: parse_ksymtab_strings_def ksymtab_new_def Let_def ksymtab_len_def
        hash_new_def hash_get_count_def)
qed

text \<open>
  Claim C6.  The test of the last byte comes before the loop, so nothing is inserted for a
  blob whose last byte is not NUL; but the message of the failure prints the blob with
  \<^verbatim>\<open>%s\<close>.  For a blob that holds no NUL byte at all, such as the two bytes \<open>ab\<close>, that read
  runs past the end of the buffer: the outcome is undefined, not the failure the claim
  promises.  A blob with a NUL byte before its unterminated tail does end in the failure.
\<close>

theorem parse_ksymtab_strings_no_nul_reads_past:
  "parse_ksymtab_strings empty_heap ''ab'' = (Undefined, snd (ksymtab_new empty_heap KSYMTAB_SIZE))
   \<and> read_c_string (''ab'', 0) = Undefined
   \<and> parse_ksymtab_strings empty_heap (''foo'' @ [NUL] @ ''ba'')
        = (Fatal MalformedKsymtabStrings, snd (ksymtab_new empty_heap KSYMTAB_SIZE))"
  by (simp add: parse_ksymtab_strings_def ksymtab_new_def Let_def read_c_string_def)

section \<open>Properties of the registry\<close>

subsection \<open>What each operation does to the heap\<close>

lemma ksymtab_new_eff:
  "ksymtab_new h sz = (brk h, h\<lparr>ksymtabs := (ksymtabs h)(brk h \<mapsto> \<lparr>hash = [], mark_count = 0\<rparr>), brk := Suc (brk h)\<rparr>)"
  by (simp add: ksymtab_new_def hash_new_def Let_def)

lemma add_sym_OkD:
  assumes "ksymtab_add_sym h r str len v = Ok (new, h')"
  shows "\<exists>t. ksymtabs h r = Some t \<and> len \<le> length str \<and> new = brk h \<and>
     h' = h\<lparr>ksymtabs := (ksymtabs h)(r \<mapsto> t\<lparr>hash := hash_add (hash t) (take len str) (brk h)\<rparr>),
            ksyms := (ksyms h)(brk h \<mapsto> \<lparr>ksym_value = v, ksym_mark = False, ksym_link = None,
                                          ksym_ksymtab = r, ksym_key = take len str\<rparr>),
            brk := Suc (brk h)\<rparr>"
  using assms
  by (auto simp: ksymtab_add_sym_def Let_def split: option.splits if_splits)

lemma mark_OkD:
  assumes "ksymtab_ksym_mark h p = Ok h'"
  shows "\<exists>k. ksyms h p = Some k \<and>
     (if ksym_mark k then h' = h
      else \<exists>t. ksymtabs h (ksym_ksymtab k) = Some t \<and>
         h' = h\<lparr>ksymtabs := (ksymtabs h)(ksym_ksymtab k \<mapsto> t\<lparr>mark_count := mark_count t + 1\<rparr>),
                ksyms := (ksyms h)(p \<mapsto> k\<lparr>ksym_mark := True\<rparr>)\<rparr>)"
proof -
  obtain k where k: "ksyms h p = Some k"
    using assms by (auto simp: ksymtab_ksym_mark_def split: option.splits)
  show ?thesis
  proof (cases "ksym_mark k")
    case True
    then have "k\<lparr>ksym_mark := True\<rparr> = k" by simp
    then have "(ksyms h)(p \<mapsto> k\<lparr>ksym_mark := True\<rparr>) = ksyms h"
      using k by (simp add: fun_upd_idem)
    then show ?thesis using assms k True by (simp add: ksymtab_ksym_mark_def)
  next
    case False
    then show ?thesis using assms k
      by (auto simp: ksymtab_ksym_mark_def split: option.splits)
  qed
qed

lemma set_link_OkD:
  assumes "ksymtab_ksym_set_link h p link = Ok h'"
  shows "\<exists>k. ksyms h p = Some k \<and> (\<forall>l. ksym_link k = Some l \<longrightarrow> strings h l \<noteq> None) \<and>
     (case link of
        None \<Rightarrow> h' = h\<lparr>strings := strings_freed h k, ksyms := (ksyms h)(p \<mapsto> k\<lparr>ksym_link := None\<rparr>)\<rparr>
      | Some l' \<Rightarrow> \<exists>s0. strings_freed h k l' = Some s0 \<and>
          h' = h\<lparr>strings := (strings_freed h k)(brk h \<mapsto> s0), brk := Suc (brk h),
                 ksyms := (ksyms h)(p \<mapsto> k\<lparr>ksym_link := Some (brk h)\<rparr>)\<rparr>)"
  using assms
  by (auto simp: ksymtab_ksym_set_link_def free_string_def safe_strdup_or_null_def strdup_def
        strings_freed_def split: option.splits res.splits)

subsection \<open>Reading the invariant\<close>

lemma inv_brk_ksymtabs: "inv_brk h \<Longrightarrow> ksymtabs h p = Some t \<Longrightarrow> p < brk h"
  unfolding inv_brk_def by blast

lemma inv_brk_ksyms: "inv_brk h \<Longrightarrow> ksyms h p = Some k \<Longrightarrow> p < brk h"
  unfolding inv_brk_def by blast

lemma inv_brk_strings: "inv_brk h \<Longrightarrow> strings h p = Some k \<Longrightarrow> p < brk h"
  unfolding inv_brk_def by blast

lemma inv_brk_fresh:
  assumes "inv_brk h" and "brk h \<le> b"
  shows "ksymtabs h b = None" and "ksyms h b = None" and "strings h b = None"
proof -
  have "\<not> b < brk h" using assms(2) by simp
  then show "ksymtabs h b = None" and "ksyms h b = None" and "strings h b = None"
    using assms(1) unfolding inv_brk_def by (metis domIff)+
qed

lemma inv_owner_distinct:
  "inv_owner h \<Longrightarrow> ksymtabs h r = Some t \<Longrightarrow> distinct (map snd (hash t)) \<and> distinct (map fst (hash t))"
  unfolding inv_owner_def by blast

lemma inv_owner_entry:
  "inv_owner h \<Longrightarrow> ksymtabs h r = Some t \<Longrightarrow> e \<in> set (hash t) \<Longrightarrow>
     \<exists>k. ksyms h (snd e) = Some k \<and> ksym_ksymtab k = r \<and> fst e = c_str (ksym_key k)"
  unfolding inv_owner_def by blast

lemma inv_owner_live:
  "inv_owner h \<Longrightarrow> ksyms h p = Some k \<Longrightarrow> ksymtabs h (ksym_ksymtab k) \<noteq> None"
  unfolding inv_owner_def by blast

lemma inv_link_live: "inv_link h \<Longrightarrow> ksyms h p = Some k \<Longrightarrow> ksym_link k = Some l \<Longrightarrow> strings h l \<noteq> None"
  unfolding inv_link_def by blast

lemma inv_link_unshared:
  "inv_link h \<Longrightarrow> ksyms h p = Some k \<Longrightarrow> ksym_link k = Some l \<Longrightarrow>
     ksyms h q = Some k' \<Longrightarrow> ksym_link k' = Some l \<Longrightarrow> q = p"
  unfolding inv_link_def by blast

lemma is_owned_by_iff: "is_owned_by h r p \<longleftrightarrow> (\<exists>k. ksyms h p = Some k \<and> ksym_ksymtab k = r)"
  by (auto simp: is_owned_by_def split: option.splits)

lemma is_marked_at_iff: "is_marked_at h p \<longleftrightarrow> (\<exists>k. ksyms h p = Some k \<and> ksym_mark k)"
  by (auto simp: is_marked_at_def ksymtab_ksym_is_marked_def split: option.splits)

lemma owned_records_iff:
  "inv_brk h \<Longrightarrow> p \<in> set (owned_records h r) \<longleftrightarrow> is_owned_by h r p"
  by (auto simp: owned_records_def is_owned_by_iff dest: inv_brk_ksyms)

lemma distinct_owned_records: "distinct (owned_records h r)"
  by (simp add: owned_records_def)

subsection \<open>Steps that keep the owner, the name and the mark of every record\<close>

lemma owned_records_grow:
  assumes "inv_brk h" and "brk h \<le> brk h'" and "\<And>p. p < brk h \<Longrightarrow> is_owned_by h' r p = is_owned_by h r p"
    and "\<And>p. brk h \<le> p \<Longrightarrow> p < brk h' \<Longrightarrow> \<not> is_owned_by h' r p"
  shows "owned_records h' r = owned_records h r"
proof -
  have split: "[0..<brk h'] = [0..<brk h] @ [brk h..<brk h']"
    using assms(2) by (metis le0 upt_add_eq_append le_add_diff_inverse)
  have "filter (is_owned_by h' r) [0..<brk h] = filter (is_owned_by h r) [0..<brk h]"
    by (intro filter_cong refl) (simp add: assms(3))
  moreover have "filter (is_owned_by h' r) [brk h..<brk h'] = []"
    by (simp add: filter_empty_conv assms(4))
  ultimately show ?thesis
    by (simp add: owned_records_def split)
qed

lemma inv_owner_same:
  assumes "inv_owner h"
    and "\<And>r t'. ksymtabs h' r = Some t' \<Longrightarrow>
           hash t' = [] \<or> (\<exists>t. ksymtabs h r = Some t \<and> hash t' = hash t)"
    and "\<And>r t. ksymtabs h r = Some t \<Longrightarrow> ksymtabs h' r \<noteq> None"
    and "\<And>p k. ksyms h p = Some k \<Longrightarrow>
           \<exists>k'. ksyms h' p = Some k' \<and> ksym_ksymtab k' = ksym_ksymtab k \<and> ksym_key k' = ksym_key k"
    and "\<And>p k'. ksyms h' p = Some k' \<Longrightarrow>
           \<exists>k. ksyms h p = Some k \<and> ksym_ksymtab k' = ksym_ksymtab k"
  shows "inv_owner h'"
  unfolding inv_owner_def
proof (intro conjI allI impI ballI)
  fix r t' assume a: "ksymtabs h' r = Some t'"
  have d: "distinct (map snd (hash t')) \<and> distinct (map fst (hash t'))"
    using assms(2)[OF a] inv_owner_distinct[OF assms(1)] by auto
  show "distinct (map snd (hash t'))" "distinct (map fst (hash t'))"
    using d by simp_all
  fix e assume e: "e \<in> set (hash t')"
  then have "hash t' \<noteq> []" by auto
  then obtain t where t: "ksymtabs h r = Some t" "hash t' = hash t"
    using assms(2)[OF a] by blast
  have "e \<in> set (hash t)" using e t(2) by simp
  from inv_owner_entry[OF assms(1) t(1) this] obtain k where
    k: "ksyms h (snd e) = Some k" "ksym_ksymtab k = r" "fst e = c_str (ksym_key k)" by blast
  from assms(4)[OF k(1)] show "\<exists>k. ksyms h' (snd e) = Some k \<and> ksym_ksymtab k = r \<and> fst e = c_str (ksym_key k)"
    using k(2,3) by auto
next
  fix p k' assume a: "ksyms h' p = Some k'"
  from assms(5)[OF a] obtain k where k: "ksyms h p = Some k" "ksym_ksymtab k' = ksym_ksymtab k" by blast
  from inv_owner_live[OF assms(1) k(1)] obtain t where "ksymtabs h (ksym_ksymtab k) = Some t" by blast
  from assms(3)[OF this] show "ksymtabs h' (ksym_ksymtab k') \<noteq> None" using k(2) by simp
qed

lemma inv_count_same:
  assumes "inv_count h" and "inv_brk h" and "inv_owner h" and "brk h \<le> brk h'"
    and "\<And>r t'. ksymtabs h' r = Some t' \<Longrightarrow>
           ksymtabs h r = Some t' \<or> (ksymtabs h r = None \<and> mark_count t' = 0)"
    and "\<And>p. is_marked_at h' p = is_marked_at h p"
    and "\<And>p r. is_owned_by h' r p = is_owned_by h r p"
  shows "inv_count h'"
  unfolding inv_count_def
proof (intro allI impI)
  fix r t' assume a: "ksymtabs h' r = Some t'"
  have own: "owned_records h' r = owned_records h r"
  proof (rule owned_records_grow[OF assms(2,4)])
    show "is_owned_by h' r p = is_owned_by h r p" for p by (rule assms(7))
    show "\<not> is_owned_by h' r p" if "brk h \<le> p" for p
    proof -
      have "\<not> is_owned_by h r p"
        using inv_brk_fresh(2)[OF assms(2) that] by (simp add: is_owned_by_def)
      then show ?thesis by (simp add: assms(7))
    qed
  qed
  have m: "is_marked_at h' = is_marked_at h"
    by (simp add: fun_eq_iff assms(6))
  from assms(5)[OF a] show "mark_count t' = of_nat (length (filter (is_marked_at h') (owned_records h' r)))"
  proof
    assume "ksymtabs h r = Some t'"
    then show ?thesis using assms(1) unfolding inv_count_def own m by blast
  next
    assume n: "ksymtabs h r = None \<and> mark_count t' = 0"
    have "\<not> is_owned_by h r p" for p
    proof
      assume "is_owned_by h r p"
      then obtain k where "ksyms h p = Some k" "ksym_ksymtab k = r"
        by (auto simp: is_owned_by_iff)
      then show False using inv_owner_live[OF assms(3), of p k] n by simp
    qed
    then have "owned_records h r = []"
      by (simp add: owned_records_def filter_empty_conv)
    then show ?thesis using n by (simp add: own)
  qed
qed

lemma inv_link_same:
  assumes "inv_link h"
    and "\<And>p k' l. ksyms h' p = Some k' \<Longrightarrow> ksym_link k' = Some l \<Longrightarrow>
           \<exists>k. ksyms h p = Some k \<and> ksym_link k = Some l"
    and "\<And>l. strings h l \<noteq> None \<Longrightarrow> strings h' l \<noteq> None"
  shows "inv_link h'"
  unfolding inv_link_def
proof (intro allI impI, elim conjE)
  fix p k' l assume a: "ksyms h' p = Some k'" "ksym_link k' = Some l"
  from assms(2)[OF a] obtain k where k: "ksyms h p = Some k" "ksym_link k = Some l" by blast
  have "strings h' l \<noteq> None"
    using inv_link_live[OF assms(1) k] by (rule assms(3))
  moreover have "q = p" if b: "ksyms h' q = Some k''" "ksym_link k'' = Some l" for q k''
  proof -
    from assms(2)[OF b] obtain k0 where "ksyms h q = Some k0" "ksym_link k0 = Some l" by blast
    then show ?thesis using inv_link_unshared[OF assms(1) k] by blast
  qed
  ultimately show "strings h' l \<noteq> None \<and> (\<forall>q k'. ksyms h' q = Some k' \<and> ksym_link k' = Some l \<longrightarrow> q = p)"
    by blast
qed

subsection \<open>The invariant is kept\<close>

lemma heap_inv_new:
  assumes "heap_inv h"
  shows "heap_inv (snd (ksymtab_new h sz))"
proof -
  let ?h' = "h\<lparr>ksymtabs := (ksymtabs h)(brk h \<mapsto> \<lparr>hash = [], mark_count = 0\<rparr>), brk := Suc (brk h)\<rparr>"
  from assms have b: "inv_brk h" and o: "inv_owner h" and c: "inv_count h" and l: "inv_link h"
    by (simp_all add: heap_inv_def)
  have fresh: "ksymtabs h (brk h) = None"
    using inv_brk_fresh(1)[OF b] by simp
  have 1: "inv_brk ?h'"
    using b unfolding inv_brk_def by (auto simp: less_Suc_eq)
  have 2: "inv_owner ?h'"
    by (rule inv_owner_same[OF o]) (auto split: if_splits)
  have 3: "inv_count ?h'"
    by (rule inv_count_same[OF c b o]) (auto simp: fresh is_marked_at_def is_owned_by_def split: if_splits)
  have 4: "inv_link ?h'"
    by (rule inv_link_same[OF l]) auto
  show ?thesis
    using 1 2 3 4 by (simp add: ksymtab_new_eff heap_inv_def)
qed

lemma heap_inv_strdup:
  assumes "heap_inv h"
  shows "heap_inv (snd (strdup h s0))"
proof -
  let ?h' = "h\<lparr>strings := (strings h)(brk h \<mapsto> s0), brk := Suc (brk h)\<rparr>"
  from assms have b: "inv_brk h" and o: "inv_owner h" and c: "inv_count h" and l: "inv_link h"
    by (simp_all add: heap_inv_def)
  have 1: "inv_brk ?h'"
    using b unfolding inv_brk_def by (auto simp: less_Suc_eq)
  have 2: "inv_owner ?h'"
    by (rule inv_owner_same[OF o]) auto
  have 3: "inv_count ?h'"
    by (rule inv_count_same[OF c b o]) (auto simp: is_marked_at_def is_owned_by_def)
  have 4: "inv_link ?h'"
    by (rule inv_link_same[OF l]) auto
  show ?thesis
    using 1 2 3 4 by (simp add: strdup_def heap_inv_def)
qed

lemma length_filter_flip_one:
  assumes "distinct xs" and "p \<in> set xs" and "\<not> P p" and "Q p" and "\<And>x. x \<noteq> p \<Longrightarrow> Q x = P x"
  shows "length (filter Q xs) = Suc (length (filter P xs))"
  using assms(1,2)
proof (induction xs)
  case Nil
  then show ?case by simp
next
  case (Cons x xs)
  show ?case
  proof (cases "x = p")
    case True
    then have "p \<notin> set xs" using Cons.prems by simp
    then have "filter Q xs = filter P xs"
      by (intro filter_cong refl) (metis assms(5))
    then show ?thesis using True assms(3,4) by simp
  next
    case False
    then show ?thesis using Cons assms(5) by auto
  qed
qed

lemma mark_count_step:
  assumes b: "inv_brk h" and k: "ksyms h p = Some k" and nm: "\<not> ksym_mark k"
    and h': "h' = h\<lparr>ksymtabs := T, ksyms := (ksyms h)(p \<mapsto> k\<lparr>ksym_mark := True\<rparr>)\<rparr>"
  shows "owned_records h' r = owned_records h r"
    and "length (filter (is_marked_at h') (owned_records h (ksym_ksymtab k)))
           = Suc (length (filter (is_marked_at h) (owned_records h (ksym_ksymtab k))))"
    and "r \<noteq> ksym_ksymtab k \<Longrightarrow>
           filter (is_marked_at h') (owned_records h r) = filter (is_marked_at h) (owned_records h r)"
proof -
  have own: "is_owned_by h' r x = is_owned_by h r x" for r x
    using k unfolding h' by (simp add: is_owned_by_def)
  then have "is_owned_by h' r = is_owned_by h r" by (simp add: fun_eq_iff)
  then show "owned_records h' r = owned_records h r"
    unfolding h' by (simp add: owned_records_def)
  have pin: "p \<in> set (owned_records h (ksym_ksymtab k))"
    using k by (simp add: owned_records_iff[OF b] is_owned_by_iff)
  have np: "\<not> is_marked_at h p"
    using k nm by (simp add: is_marked_at_iff)
  have yp: "is_marked_at h' p"
    unfolding h' by (simp add: is_marked_at_iff)
  have same: "is_marked_at h' x = is_marked_at h x" if "x \<noteq> p" for x
    using that unfolding h' by (simp add: is_marked_at_def)
  show "length (filter (is_marked_at h') (owned_records h (ksym_ksymtab k)))
           = Suc (length (filter (is_marked_at h) (owned_records h (ksym_ksymtab k))))"
    by (rule length_filter_flip_one[where P = "is_marked_at h" and Q = "is_marked_at h'",
          OF distinct_owned_records pin np yp same])
  show "filter (is_marked_at h') (owned_records h r) = filter (is_marked_at h) (owned_records h r)"
    if ne: "r \<noteq> ksym_ksymtab k"
  proof -
    have "p \<notin> set (owned_records h r)"
      using k ne by (simp add: owned_records_iff[OF b] is_owned_by_iff)
    then show ?thesis
      by (intro filter_cong refl) (metis same)
  qed
qed

lemma heap_inv_mark:
  assumes "heap_inv h" and "ksymtab_ksym_mark h p = Ok h'"
  shows "heap_inv h'"
proof -
  from assms(1) have b: "inv_brk h" and o: "inv_owner h" and c: "inv_count h" and l: "inv_link h"
    by (simp_all add: heap_inv_def)
  from mark_OkD[OF assms(2)] obtain k where k: "ksyms h p = Some k"
    and eff: "if ksym_mark k then h' = h
      else \<exists>t. ksymtabs h (ksym_ksymtab k) = Some t \<and>
         h' = h\<lparr>ksymtabs := (ksymtabs h)(ksym_ksymtab k \<mapsto> t\<lparr>mark_count := mark_count t + 1\<rparr>),
                ksyms := (ksyms h)(p \<mapsto> k\<lparr>ksym_mark := True\<rparr>)\<rparr>"
    by blast
  show ?thesis
  proof (cases "ksym_mark k")
    case True
    then show ?thesis using eff assms(1) by simp
  next
    case False
    then obtain t where t: "ksymtabs h (ksym_ksymtab k) = Some t"
      and h': "h' = h\<lparr>ksymtabs := (ksymtabs h)(ksym_ksymtab k \<mapsto> t\<lparr>mark_count := mark_count t + 1\<rparr>),
                ksyms := (ksyms h)(p \<mapsto> k\<lparr>ksym_mark := True\<rparr>)\<rparr>"
      using eff by auto
    have 1: "inv_brk h'"
      using b k t unfolding inv_brk_def h' by auto
    have 2: "inv_owner h'"
    proof (rule inv_owner_same[OF o])
      show "hash t' = [] \<or> (\<exists>t. ksymtabs h r = Some t \<and> hash t' = hash t)"
        if "ksymtabs h' r = Some t'" for r t'
        using that t unfolding h' by (cases "r = ksym_ksymtab k") auto
      show "ksymtabs h' r \<noteq> None" if "ksymtabs h r = Some t0" for r t0
        using that unfolding h' by simp
      show "\<exists>k'. ksyms h' q = Some k' \<and> ksym_ksymtab k' = ksym_ksymtab k0 \<and> ksym_key k' = ksym_key k0"
        if "ksyms h q = Some k0" for q k0
        using that k unfolding h' by (cases "q = p") auto
      show "\<exists>k0. ksyms h q = Some k0 \<and> ksym_ksymtab k' = ksym_ksymtab k0"
        if "ksyms h' q = Some k'" for q k'
        using that k unfolding h' by (cases "q = p") auto
    qed
    have 3: "inv_count h'"
      unfolding inv_count_def
    proof (intro allI impI)
      fix r' t' assume a: "ksymtabs h' r' = Some t'"
      note st = mark_count_step[OF b k False h']
      show "mark_count t' = of_nat (length (filter (is_marked_at h') (owned_records h' r')))"
      proof (cases "r' = ksym_ksymtab k")
        case True
        then have t': "t' = t\<lparr>mark_count := mark_count t + 1\<rparr>"
          using a unfolding h' by auto
        have "mark_count t = of_nat (length (filter (is_marked_at h) (owned_records h (ksym_ksymtab k))))"
          using c t unfolding inv_count_def by blast
        then show ?thesis
          unfolding st(1) True st(2) by (simp add: t')
      next
        case ne: False
        then have t': "ksymtabs h r' = Some t'" using a unfolding h' by simp
        show ?thesis
          unfolding st(1) st(3)[OF ne] using c t' unfolding inv_count_def by blast
      qed
    qed
    have 4: "inv_link h'"
    proof (rule inv_link_same[OF l])
      show "\<exists>k0. ksyms h q = Some k0 \<and> ksym_link k0 = Some l0"
        if "ksyms h' q = Some k'" "ksym_link k' = Some l0" for q k' l0
        using that k unfolding h' by (cases "q = p") auto
      show "strings h' l0 \<noteq> None" if "strings h l0 \<noteq> None" for l0
        using that unfolding h' by simp
    qed
    show ?thesis
      using 1 2 3 4 by (simp add: heap_inv_def)
  qed
qed

subsection \<open>ksymtab_add_sym\<close>

lemma hash_add_member: "e \<in> set (hash_add hs key v) \<Longrightarrow> e = (c_str key, v) \<or> e \<in> set hs"
  by (auto simp: hash_add_def)

lemma hash_add_distinct:
  assumes "distinct (map snd hs)" and "distinct (map fst hs)" and "v \<notin> snd ` set hs"
  shows "distinct (map snd (hash_add hs key v)) \<and> distinct (map fst (hash_add hs key v))"
proof -
  let ?f = "filter (\<lambda>e. fst e \<noteq> c_str key) hs"
  have "distinct (map snd ?f)" "distinct (map fst ?f)"
    using assms(1,2) by (simp_all add: distinct_map_filter)
  moreover have "v \<notin> snd ` set ?f" using assms(3) by auto
  moreover have "c_str key \<notin> fst ` set ?f" by auto
  ultimately show ?thesis by (simp add: hash_add_def)
qed

lemma heap_inv_add_sym:
  assumes "heap_inv h" and "ksymtab_add_sym h r str len v = Ok (new, h')"
  shows "heap_inv h'"
proof -
  from assms(1) have b: "inv_brk h" and o: "inv_owner h" and c: "inv_count h" and l: "inv_link h"
    by (simp_all add: heap_inv_def)
  let ?k = "\<lparr>ksym_value = v, ksym_mark = False, ksym_link = None, ksym_ksymtab = r, ksym_key = take len str\<rparr>"
  from add_sym_OkD[OF assms(2)] obtain t where t: "ksymtabs h r = Some t"
    and h': "h' = h\<lparr>ksymtabs := (ksymtabs h)(r \<mapsto> t\<lparr>hash := hash_add (hash t) (take len str) (brk h)\<rparr>),
            ksyms := (ksyms h)(brk h \<mapsto> ?k), brk := Suc (brk h)\<rparr>"
    by blast
  have fresh: "ksyms h (brk h) = None"
    using inv_brk_fresh(2)[OF b] by simp
  have old: "snd e \<noteq> brk h" if "ksymtabs h r' = Some t'" "e \<in> set (hash t')" for r' t' e
    using inv_owner_entry[OF o that] fresh by auto
  have kh': "ksyms h' q = (if q = brk h then Some ?k else ksyms h q)" for q
    unfolding h' by simp
  have 1: "inv_brk h'"
    using b t unfolding inv_brk_def h' by (auto simp: less_Suc_eq)
  have 2: "inv_owner h'"
    unfolding inv_owner_def
  proof (intro conjI allI impI ballI)
    fix r' t' assume a: "ksymtabs h' r' = Some t'"
    have cases: "(r' = r \<and> hash t' = hash_add (hash t) (take len str) (brk h))
        \<or> (r' \<noteq> r \<and> ksymtabs h r' = Some t')"
      using a unfolding h' by (cases "r' = r") auto
    have nb: "brk h \<notin> snd ` set (hash t)"
    proof
      assume "brk h \<in> snd ` set (hash t)"
      then obtain e where "e \<in> set (hash t)" "snd e = brk h" by auto
      then show False using old[OF t] by blast
    qed
    have d: "distinct (map snd (hash t')) \<and> distinct (map fst (hash t'))"
      using cases
    proof (elim disjE conjE)
      assume "hash t' = hash_add (hash t) (take len str) (brk h)"
      then show ?thesis
        using hash_add_distinct[OF _ _ nb] inv_owner_distinct[OF o t] by simp
    next
      assume "ksymtabs h r' = Some t'"
      then show ?thesis using inv_owner_distinct[OF o] by blast
    qed
    show "distinct (map snd (hash t'))" "distinct (map fst (hash t'))"
      using d by simp_all
    fix e assume e: "e \<in> set (hash t')"
    show "\<exists>k. ksyms h' (snd e) = Some k \<and> ksym_ksymtab k = r' \<and> fst e = c_str (ksym_key k)"
      using cases
    proof (elim disjE conjE)
      assume r: "r' = r" and ht: "hash t' = hash_add (hash t) (take len str) (brk h)"
      from hash_add_member[OF e[unfolded ht]] show ?thesis
      proof
        assume "e = (c_str (take len str), brk h)"
        then show ?thesis using r by (simp add: kh')
      next
        assume m: "e \<in> set (hash t)"
        from inv_owner_entry[OF o t m] old[OF t m] show ?thesis
          using r by (simp add: kh')
      qed
    next
      assume "r' \<noteq> r" and t': "ksymtabs h r' = Some t'"
      from inv_owner_entry[OF o t' e] old[OF t' e] show ?thesis
        by (simp add: kh')
    qed
  next
    fix p k assume a: "ksyms h' p = Some k"
    show "ksymtabs h' (ksym_ksymtab k) \<noteq> None"
    proof (cases "p = brk h")
      case True
      then show ?thesis using a unfolding h' by auto
    next
      case False
      then have "ksyms h p = Some k" using a by (simp add: kh')
      from inv_owner_live[OF o this] show ?thesis unfolding h' by auto
    qed
  qed
  have own_old: "is_owned_by h' r' q = is_owned_by h r' q" if "q < brk h" for q r'
    using that by (simp add: is_owned_by_def kh')
  have mark_old: "is_marked_at h' q = is_marked_at h q" if "q < brk h" for q
    using that by (simp add: is_marked_at_def kh')
  have nm: "\<not> is_marked_at h' (brk h)"
    by (simp add: is_marked_at_iff kh')
  have marked: "filter (is_marked_at h') (owned_records h' r') = filter (is_marked_at h) (owned_records h r')" for r'
  proof -
    have "filter (is_owned_by h' r') [0..<brk h] = filter (is_owned_by h r') [0..<brk h]"
      by (intro filter_cong refl) (simp add: own_old)
    then have "owned_records h' r' = owned_records h r' @ (if is_owned_by h' r' (brk h) then [brk h] else [])"
      unfolding owned_records_def h' by simp
    moreover have "filter (is_marked_at h') (owned_records h r') = filter (is_marked_at h) (owned_records h r')"
      by (intro filter_cong refl) (auto simp: owned_records_def mark_old)
    ultimately show ?thesis using nm by simp
  qed
  have 3: "inv_count h'"
    unfolding inv_count_def marked
  proof (intro allI impI)
    fix r' t' assume a: "ksymtabs h' r' = Some t'"
    then have "\<exists>t0. ksymtabs h r' = Some t0 \<and> mark_count t' = mark_count t0"
      using t unfolding h' by (cases "r' = r") auto
    then show "mark_count t' = of_nat (length (filter (is_marked_at h) (owned_records h r')))"
      using c unfolding inv_count_def by auto
  qed
  have 4: "inv_link h'"
  proof (rule inv_link_same[OF l])
    show "\<exists>k0. ksyms h q = Some k0 \<and> ksym_link k0 = Some l0"
      if "ksyms h' q = Some k'" "ksym_link k' = Some l0" for q k' l0
      using that by (cases "q = brk h") (auto simp: kh')
    show "strings h' l0 \<noteq> None" if "strings h l0 \<noteq> None" for l0
      using that unfolding h' by simp
  qed
  show ?thesis
    using 1 2 3 4 by (simp add: heap_inv_def)
qed

subsection \<open>ksymtab_ksym_set_link\<close>

lemma heap_inv_relink:
  assumes inv: "heap_inv h" and k: "ksyms h p = Some k"
    and h': "h' = h\<lparr>strings := S, brk := B, ksyms := (ksyms h)(p \<mapsto> k\<lparr>ksym_link := L\<rparr>)\<rparr>"
    and B: "brk h \<le> B" and S: "\<And>a. a \<in> dom S \<Longrightarrow> a < B"
    and keep: "\<And>q k' l. q \<noteq> p \<Longrightarrow> ksyms h q = Some k' \<Longrightarrow> ksym_link k' = Some l \<Longrightarrow> S l \<noteq> None"
    and new: "\<And>l. L = Some l \<Longrightarrow> S l \<noteq> None \<and> (\<forall>q k'. q \<noteq> p \<longrightarrow> ksyms h q = Some k' \<longrightarrow> ksym_link k' \<noteq> Some l)"
  shows "heap_inv h'"
proof -
  from inv have b: "inv_brk h" and o: "inv_owner h" and c: "inv_count h" and l: "inv_link h"
    by (simp_all add: heap_inv_def)
  have kt: "ksymtabs h' = ksymtabs h" unfolding h' by simp
  have ks: "\<exists>k'. ksyms h' v = Some k' \<and> ksym_ksymtab k' = ksym_ksymtab k0 \<and> ksym_key k' = ksym_key k0"
    if "ksyms h v = Some k0" for v k0
    using that k unfolding h' by auto
  have ks': "\<exists>k0. ksyms h v = Some k0 \<and> ksym_ksymtab k' = ksym_ksymtab k0
       \<and> (if v = p then ksym_link k' = L else ksym_link k' = ksym_link k0)"
    if "ksyms h' v = Some k'" for v k'
    using that k unfolding h' by (cases "v = p") auto
  have 1: "inv_brk h'"
    unfolding inv_brk_def
  proof (intro allI impI)
    fix a assume "a \<in> dom (ksymtabs h') \<or> a \<in> dom (ksyms h') \<or> a \<in> dom (strings h')"
    then consider "a \<in> dom (ksymtabs h)" | "a \<in> dom (ksyms h)" | "a \<in> dom S"
      using k unfolding h' by (auto split: if_splits)
    then show "a < brk h'"
    proof cases
      case 1
      then have "a < brk h" using b unfolding inv_brk_def by blast
      then show ?thesis using B unfolding h' by simp
    next
      case 2
      then have "a < brk h" using b unfolding inv_brk_def by blast
      then show ?thesis using B unfolding h' by simp
    next
      case 3 then show ?thesis using S unfolding h' by simp
    qed
  qed
  have 2: "inv_owner h'"
  proof (rule inv_owner_same[OF o])
    show "hash t' = [] \<or> (\<exists>t. ksymtabs h r = Some t \<and> hash t' = hash t)"
      if "ksymtabs h' r = Some t'" for r t'
      using that unfolding kt by simp
    show "ksymtabs h' r \<noteq> None" if "ksymtabs h r = Some t0" for r t0
      using that unfolding kt by simp
    show "\<exists>k'. ksyms h' q = Some k' \<and> ksym_ksymtab k' = ksym_ksymtab k0 \<and> ksym_key k' = ksym_key k0"
      if "ksyms h q = Some k0" for q k0
      using that by (rule ks)
    show "\<exists>k0. ksyms h q = Some k0 \<and> ksym_ksymtab k' = ksym_ksymtab k0"
      if "ksyms h' q = Some k'" for q k'
      using ks'[OF that] by blast
  qed
  have 3: "inv_count h'"
  proof (rule inv_count_same[OF c b o])
    show "brk h \<le> brk h'" using B unfolding h' by simp
    show "ksymtabs h r = Some t' \<or> ksymtabs h r = None \<and> mark_count t' = 0"
      if "ksymtabs h' r = Some t'" for r t'
      using that unfolding kt by simp
    show "is_marked_at h' q = is_marked_at h q" for q
      using k unfolding h' by (auto simp: is_marked_at_def ksymtab_ksym_is_marked_def)
    show "is_owned_by h' r q = is_owned_by h r q" for q r
      using k unfolding h' by (auto simp: is_owned_by_def)
  qed
  have st: "strings h' = S" unfolding h' by simp
  have 4: "inv_link h'"
    unfolding inv_link_def st
  proof (intro allI impI, elim conjE)
    fix q k' l0 assume a: "ksyms h' q = Some k'" "ksym_link k' = Some l0"
    from ks'[OF a(1)] obtain k0 where k0: "ksyms h q = Some k0"
      "if q = p then ksym_link k' = L else ksym_link k' = ksym_link k0" by blast
    have alive: "S l0 \<noteq> None"
      using k0 a(2) keep new by (cases "q = p") auto
    have uniq: "q' = q" if b: "ksyms h' q' = Some k''" "ksym_link k'' = Some l0" for q' k''
    proof -
      from ks'[OF b(1)] obtain k1 where k1: "ksyms h q' = Some k1"
        "if q' = p then ksym_link k'' = L else ksym_link k'' = ksym_link k1" by blast
      show ?thesis
      proof (cases "q = p")
        case True
        then have L: "L = Some l0" using k0 a(2) by simp
        show ?thesis
        proof (cases "q' = p")
          case True then show ?thesis using \<open>q = p\<close> by simp
        next
          case False
          then have "ksym_link k1 = Some l0" using k1 b(2) by simp
          then show ?thesis using new[OF L] False k1(1) by blast
        qed
      next
        case False
        then have q: "ksym_link k0 = Some l0" using k0 a(2) by simp
        show ?thesis
        proof (cases "q' = p")
          case True
          then have L: "L = Some l0" using k1 b(2) by simp
          then show ?thesis using new[OF L] False k0(1) q by blast
        next
          case f: False
          then have "ksym_link k1 = Some l0" using k1 b(2) by simp
          then show ?thesis using l k0(1) q k1(1) unfolding inv_link_def by blast
        qed
      qed
    qed
    show "S l0 \<noteq> None \<and> (\<forall>q' k''. ksyms h' q' = Some k'' \<and> ksym_link k'' = Some l0 \<longrightarrow> q' = q)"
      using alive uniq by blast
  qed
  show ?thesis
    using 1 2 3 4 by (simp add: heap_inv_def)
qed

lemma strings_freed_keep:
  assumes "inv_link h" and "ksyms h p = Some k" and "q \<noteq> p" and "ksyms h q = Some k'" and "ksym_link k' = Some l"
  shows "strings_freed h k l \<noteq> None"
proof -
  have "strings h l \<noteq> None" using assms(1,4,5) unfolding inv_link_def by blast
  moreover have "ksym_link k \<noteq> Some l" using assms unfolding inv_link_def by blast
  ultimately show ?thesis by (auto simp: strings_freed_def split: option.splits)
qed

lemma strings_freed_dom: "a \<in> dom (strings_freed h k) \<Longrightarrow> a \<in> dom (strings h)"
  by (auto simp: strings_freed_def split: option.splits if_splits)

lemma heap_inv_set_link:
  assumes "heap_inv h" and "ksymtab_ksym_set_link h p link = Ok h'"
  shows "heap_inv h'"
proof -
  from assms(1) have b: "inv_brk h" and l: "inv_link h"
    by (simp_all add: heap_inv_def)
  from set_link_OkD[OF assms(2)] obtain k where k: "ksyms h p = Some k"
    and eff: "case link of
        None \<Rightarrow> h' = h\<lparr>strings := strings_freed h k, ksyms := (ksyms h)(p \<mapsto> k\<lparr>ksym_link := None\<rparr>)\<rparr>
      | Some l' \<Rightarrow> \<exists>s0. strings_freed h k l' = Some s0 \<and>
          h' = h\<lparr>strings := (strings_freed h k)(brk h \<mapsto> s0), brk := Suc (brk h),
                 ksyms := (ksyms h)(p \<mapsto> k\<lparr>ksym_link := Some (brk h)\<rparr>)\<rparr>"
    by blast
  have dom: "a < brk h" if "a \<in> dom (strings_freed h k)" for a
    using strings_freed_dom[OF that] b unfolding inv_brk_def by blast
  show ?thesis
  proof (cases link)
    case None
    then have h': "h' = h\<lparr>strings := strings_freed h k, brk := brk h, ksyms := (ksyms h)(p \<mapsto> k\<lparr>ksym_link := None\<rparr>)\<rparr>"
      using eff by simp
    show ?thesis
    proof (rule heap_inv_relink[OF assms(1) k h'])
      show "brk h \<le> brk h" by simp
      show "a < brk h" if "a \<in> dom (strings_freed h k)" for a
        using that by (rule dom)
      show "strings_freed h k l0 \<noteq> None"
        if "q \<noteq> p" "ksyms h q = Some k'" "ksym_link k' = Some l0" for q k' l0
        using strings_freed_keep[OF l k that] .
      show "strings_freed h k l0 \<noteq> None \<and>
          (\<forall>q k'. q \<noteq> p \<longrightarrow> ksyms h q = Some k' \<longrightarrow> ksym_link k' \<noteq> Some l0)"
        if "None = Some l0" for l0
        using that by simp
    qed
  next
    case (Some l')
    then obtain s0 where h': "h' = h\<lparr>strings := (strings_freed h k)(brk h \<mapsto> s0), brk := Suc (brk h),
                 ksyms := (ksyms h)(p \<mapsto> k\<lparr>ksym_link := Some (brk h)\<rparr>)\<rparr>"
      using eff by auto
    have nolink: "ksym_link k' \<noteq> Some (brk h)" if "ksyms h q = Some k'" for q k'
    proof
      assume "ksym_link k' = Some (brk h)"
      then have "strings h (brk h) \<noteq> None" using l that unfolding inv_link_def by blast
      then show False using b unfolding inv_brk_def by (metis domIff less_irrefl)
    qed
    show ?thesis
    proof (rule heap_inv_relink[OF assms(1) k h'])
      show "brk h \<le> Suc (brk h)" by simp
      show "a < Suc (brk h)" if "a \<in> dom ((strings_freed h k)(brk h \<mapsto> s0))" for a
        using that dom[of a] by (auto simp: less_Suc_eq domIff split: if_splits)
      show "((strings_freed h k)(brk h \<mapsto> s0)) l0 \<noteq> None"
        if "q \<noteq> p" "ksyms h q = Some k'" "ksym_link k' = Some l0" for q k' l0
        using strings_freed_keep[OF l k that] by simp
      show "((strings_freed h k)(brk h \<mapsto> s0)) l0 \<noteq> None \<and>
          (\<forall>q k'. q \<noteq> p \<longrightarrow> ksyms h q = Some k' \<longrightarrow> ksym_link k' \<noteq> Some l0)"
        if "Some (brk h) = Some l0" for l0
        using that nolink by auto
    qed
  qed
qed

lemma empty_heap_inv: "heap_inv empty_heap"
  by (simp add: heap_inv_def inv_brk_def inv_owner_def inv_count_def inv_link_def empty_heap_def)

lemma reachable_heap_inv: "reachable h \<Longrightarrow> heap_inv h"
proof (induction rule: reachable.induct)
  case reachable_empty
  show ?case by (rule empty_heap_inv)
next
  case (reachable_new h sz)
  then show ?case by (simp add: heap_inv_new)
next
  case (reachable_add_sym h r s n v q h')
  then show ?case using heap_inv_add_sym by blast
next
  case (reachable_mark h q h')
  then show ?case using heap_inv_mark by blast
next
  case (reachable_set_link h q l h')
  then show ?case using heap_inv_set_link by blast
next
  case (reachable_strdup h s0)
  then show ?case by (simp add: heap_inv_strdup)
qed

text \<open>A duplication is an addition followed by a link assignment, so it stays inside.\<close>

lemma reachable_copy_sym:
  assumes "reachable h" and "ksymtab_copy_sym h r p = Ok (q, h')"
  shows "reachable h'"
proof -
  from assms(2) obtain k h1 where
    add: "ksymtab_add_sym h r (ksymtab_ksym_get_name k) (strlen (ksymtab_ksym_get_name k))
            (ksymtab_ksym_get_value k) = Ok (q, h1)"
    and sl: "ksymtab_ksym_set_link h1 q (ksymtab_ksym_get_link k) = Ok h'"
    by (auto simp: ksymtab_copy_sym_def Let_def split: option.splits res.splits)
  have "reachable h1" using assms(1) add by (rule reachable_add_sym)
  then show ?thesis using sl by (rule reachable_set_link)
qed

subsection \<open>The mark count\<close>

lemma mark_count_unat:
  assumes "heap_inv h" and "brk h < 2 ^ 64" and "ksymtabs h r = Some t"
  shows "unat (mark_count t) = length (filter (is_marked_at h) (owned_records h r))"
proof -
  have "length (filter (is_marked_at h) (owned_records h r)) \<le> length (owned_records h r)"
    by (rule length_filter_le)
  also have "\<dots> \<le> length [0..<brk h]"
    unfolding owned_records_def by (rule length_filter_le)
  finally have "length (filter (is_marked_at h) (owned_records h r)) < 2 ^ 64"
    using assms(2) by simp
  moreover have "mark_count t = of_nat (length (filter (is_marked_at h) (owned_records h r)))"
    using assms(1,3) unfolding heap_inv_def inv_count_def by blast
  ultimately show ?thesis by (simp add: unat_of_nat)
qed

lemma length_filter_same_set:
  assumes "distinct xs" and "distinct ys" and "set xs = set ys"
  shows "length (filter P xs) = length (filter P ys)"
proof -
  have "distinct (filter P xs)" "distinct (filter P ys)"
    using assms(1,2) by simp_all
  moreover have "set (filter P xs) = set (filter P ys)"
    using assms(3) by simp
  ultimately show ?thesis
    by (metis distinct_card)
qed

lemma all_entered_set:
  assumes "heap_inv h" and "ksymtabs h r = Some t" and "all_entered h r"
  shows "set (owned_records h r) = set (map snd (hash t))"
proof -
  from assms(1) have b: "inv_brk h" and o: "inv_owner h" by (simp_all add: heap_inv_def)
  have "set (owned_records h r) \<subseteq> set (map snd (hash t))"
    using assms(2,3) by (auto simp: all_entered_def list_all_iff)
  moreover have "p \<in> set (owned_records h r)" if pin: "p \<in> set (map snd (hash t))" for p
  proof -
    from pin obtain e where e: "e \<in> set (hash t)" "snd e = p" by auto
    from inv_owner_entry[OF o assms(2) e(1)] e(2)
    have "is_owned_by h r p" by (auto simp: is_owned_by_iff)
    then show ?thesis by (simp add: owned_records_iff[OF b])
  qed
  ultimately show ?thesis by blast
qed

lemma all_entered_marked:
  assumes "heap_inv h" and "ksymtabs h r = Some t" and "all_entered h r"
  shows "length (filter (is_marked_at h) (owned_records h r)) = length (marked_records h t)"
proof -
  from assms(1) have o: "inv_owner h" by (simp add: heap_inv_def)
  have "distinct (map snd (hash t))"
    using inv_owner_distinct[OF o assms(2)] by simp
  then show ?thesis
    unfolding marked_records_def
    by (intro length_filter_same_set distinct_owned_records all_entered_set[OF assms])
qed

lemma all_entered_add_fresh:
  assumes inv: "heap_inv h" and t: "ksymtabs h r = Some t" and en: "all_entered h r"
    and add: "ksymtab_add_sym h r str len v = Ok (q, h')"
    and fresh: "c_str (take len str) \<notin> fst ` set (hash t)"
  shows "all_entered h' r"
proof -
  from inv have b: "inv_brk h" by (simp add: heap_inv_def)
  let ?k = "\<lparr>ksym_value = v, ksym_mark = False, ksym_link = None, ksym_ksymtab = r, ksym_key = take len str\<rparr>"
  from add_sym_OkD[OF add] t have
    h': "h' = h\<lparr>ksymtabs := (ksymtabs h)(r \<mapsto> t\<lparr>hash := hash_add (hash t) (take len str) (brk h)\<rparr>),
            ksyms := (ksyms h)(brk h \<mapsto> ?k), brk := Suc (brk h)\<rparr>"
    by auto
  have hs: "hash_add (hash t) (take len str) (brk h) = (c_str (take len str), brk h) # hash t"
    using fresh by (rule hash_add_fresh)
  have own: "is_owned_by h' r p \<longleftrightarrow> p = brk h \<or> is_owned_by h r p" for p
    using inv_brk_fresh(2)[OF b, of "brk h"] unfolding h' by (auto simp: is_owned_by_iff)
  have old: "p \<in> snd ` set (hash t)" if "is_owned_by h r p" for p
  proof -
    have "p \<in> set (owned_records h r)" using that by (simp add: owned_records_iff[OF b])
    then show ?thesis using en t by (auto simp: all_entered_def list_all_iff)
  qed
  have "p \<in> set (map snd (hash_add (hash t) (take len str) (brk h)))"
    if "p \<in> set (owned_records h' r)" for p
  proof -
    have "is_owned_by h' r p" using that by (simp add: owned_records_def)
    then show ?thesis using own old unfolding hs by auto
  qed
  then show ?thesis
    unfolding all_entered_def list_all_iff by (simp add: h')
qed

lemma all_entered_new:
  assumes "heap_inv h"
  shows "all_entered (snd (ksymtab_new h sz)) (brk h)"
proof -
  from assms have b: "inv_brk h" and o: "inv_owner h" by (simp_all add: heap_inv_def)
  have "\<not> is_owned_by h (brk h) p" for p
  proof
    assume "is_owned_by h (brk h) p"
    then obtain k where "ksyms h p = Some k" "ksym_ksymtab k = brk h"
      by (auto simp: is_owned_by_iff)
    then have "ksymtabs h (brk h) \<noteq> None" using inv_owner_live[OF o] by metis
    then show False using inv_brk_fresh(1)[OF b, of "brk h"] by simp
  qed
  then have "owned_records (snd (ksymtab_new h sz)) (brk h) = []"
    by (simp add: owned_records_def ksymtab_new_def Let_def is_owned_by_def filter_empty_conv)
  then show ?thesis
    by (simp add: all_entered_def ksymtab_new_def Let_def)
qed

lemma example_heap_eq:
  "example_heap =
     \<lparr>ksymtabs = [0 \<mapsto> \<lparr>hash = [(''foo'', 1)], mark_count = 0\<rparr>],
      ksyms = [1 \<mapsto> \<lparr>ksym_value = 0, ksym_mark = False, ksym_link = None, ksym_ksymtab = 0,
                      ksym_key = ''foo''\<rparr>],
      strings = Map.empty, brk = 2\<rparr>"
  by (simp add: example_heap_def ksymtab_new_def ksymtab_add_sym_def empty_heap_def Let_def
      hash_new_def hash_add_def c_str_def numeral_2_eq_2)

lemma example_heap_add:
  "ksymtab_add_sym (snd (ksymtab_new empty_heap KSYMTAB_SIZE)) 0 ''foo'' 3 0 = Ok (1, example_heap)"
  by (simp add: example_heap_def ksymtab_new_def ksymtab_add_sym_def empty_heap_def Let_def)

lemma example_heap_reachable: "reachable example_heap"
  using reachable_add_sym[OF reachable_new[OF reachable_empty] example_heap_add] .

lemma marked_heap_eq:
  "marked_heap = \<lparr>ksymtabs = [0 \<mapsto> \<lparr>hash = [(''foo'', 1)], mark_count = 1\<rparr>],
      ksyms = [1 \<mapsto> \<lparr>ksym_value = 0, ksym_mark = True, ksym_link = None, ksym_ksymtab = 0,
                      ksym_key = ''foo''\<rparr>],
      strings = Map.empty, brk = 2\<rparr>"
  by (simp add: marked_heap_def example_heap_eq ksymtab_ksym_mark_def)

lemma example_heap_mark: "ksymtab_ksym_mark example_heap 1 = Ok marked_heap"
  by (simp add: marked_heap_def example_heap_eq ksymtab_ksym_mark_def)

lemma displaced_heap_eq:
  "displaced_heap =
     \<lparr>ksymtabs = [0 \<mapsto> \<lparr>hash = [(''foo'', 2)], mark_count = 1\<rparr>],
      ksyms = [1 \<mapsto> \<lparr>ksym_value = 0, ksym_mark = True, ksym_link = None, ksym_ksymtab = 0,
                      ksym_key = ''foo''\<rparr>,
               2 \<mapsto> \<lparr>ksym_value = 1, ksym_mark = False, ksym_link = None, ksym_ksymtab = 0,
                      ksym_key = ''foo''\<rparr>],
      strings = Map.empty, brk = 3\<rparr>"
  by (simp add: displaced_heap_def marked_heap_eq ksymtab_add_sym_def Let_def
      hash_add_def c_str_def eval_nat_numeral)

lemma displaced_heap_add:
  "ksymtab_add_sym marked_heap 0 ''foo'' 3 1 = Ok (2, displaced_heap)"
  by (simp add: displaced_heap_def marked_heap_eq ksymtab_add_sym_def Let_def)

lemma displaced_heap_reachable: "reachable displaced_heap"
  using reachable_add_sym[OF reachable_mark[OF example_heap_reachable example_heap_mark] displaced_heap_add] .

text \<open>
  Claim C2, as stated, fails.  Add \<open>foo\<close> to a new registry, mark the record, add \<open>foo\<close>
  again: the second record takes the place of the first in the container, so the registry
  holds one record, which the lookup of \<open>foo\<close> returns and whose flag is clear, and no
  marked one, while its mark count is 1; the marked record is the displaced one.
\<close>

theorem ksymtab_mark_count_displaced_counterexample:
  "reachable displaced_heap
   \<and> ksymtabs displaced_heap 0 = Some \<lparr>hash = [(''foo'', 2)], mark_count = 1\<rparr>
   \<and> ksymtab_mark_count displaced_heap (Some 0) = Ok 1
   \<and> ksymtab_len displaced_heap (Some 0) = Ok 1
   \<and> ksymtab_find displaced_heap (Some 0) (Some (''foo'' @ [NUL])) = Ok (Some 2)
   \<and> \<not> is_marked_at displaced_heap 2
   \<and> marked_records displaced_heap \<lparr>hash = [(''foo'', 2)], mark_count = 1\<rparr> = []
   \<and> is_marked_at displaced_heap 1"
  using displaced_heap_reachable
  by (simp add: displaced_heap_eq ksymtab_mark_count_def ksymtab_len_def hash_get_count_def
      ksymtab_find_def hash_find_def c_str_def is_marked_at_def ksymtab_ksym_is_marked_def
      marked_records_def)

text \<open>
  Claim C2, amended.  In every heap built by the registry operations, with addresses that
  fit 64 bits, the mark count of a registry is the number of marked records among all the
  records created for it, displaced ones included; it is the number of marked records the
  registry holds as long as none of its records has been displaced, which marking and
  adding under a new name preserve.  Marking one of its records succeeds and leaves the
  flag set; when the flag was clear the count goes up by exactly one, when it was set the
  heap is unchanged; the count again equals the number of marked records.
\<close>

theorem ksymtab_mark_count_invariant:
  assumes "reachable h" and "brk h < 2 ^ 64" and "ksymtabs h r = Some t"
  shows "ksymtab_mark_count h (Some r) = Ok (mark_count t)
     \<and> unat (mark_count t) = length (filter (is_marked_at h) (owned_records h r))
     \<and> (all_entered h r \<longrightarrow> unat (mark_count t) = length (marked_records h t))
     \<and> (\<forall>p k. ksyms h p = Some k \<and> ksym_ksymtab k = r \<longrightarrow>
          (\<exists>h' t'. ksymtab_ksym_mark h p = Ok h' \<and> ksymtabs h' r = Some t' \<and> is_marked_at h' p
             \<and> (if ksym_mark k then h' = h else unat (mark_count t') = unat (mark_count t) + 1)
             \<and> hash t' = hash t \<and> all_entered h' r = all_entered h r
             \<and> unat (mark_count t') = length (filter (is_marked_at h') (owned_records h' r))
             \<and> (all_entered h r \<longrightarrow> unat (mark_count t') = length (marked_records h' t'))))
     \<and> (\<forall>str len v q h'. all_entered h r \<and> c_str (take len str) \<notin> fst ` set (hash t)
            \<and> ksymtab_add_sym h r str len v = Ok (q, h') \<longrightarrow> all_entered h' r)"
proof (intro conjI allI impI)
  have inv: "heap_inv h" using assms(1) by (rule reachable_heap_inv)
  then have b: "inv_brk h" by (simp add: heap_inv_def)
  show "ksymtab_mark_count h (Some r) = Ok (mark_count t)"
    using assms(3) by (simp add: ksymtab_mark_count_def)
  show c: "unat (mark_count t) = length (filter (is_marked_at h) (owned_records h r))"
    using inv assms(2,3) by (rule mark_count_unat)
  show ce: "unat (mark_count t) = length (marked_records h t)" if "all_entered h r"
    using c all_entered_marked[OF inv assms(3) that] by simp
  show "all_entered h' r"
    if "all_entered h r \<and> c_str (take len str) \<notin> fst ` set (hash t)
            \<and> ksymtab_add_sym h r str len v = Ok (q, h')" for str len v q h'
    using all_entered_add_fresh[OF inv assms(3)] that by blast
  fix p k assume "ksyms h p = Some k \<and> ksym_ksymtab k = r"
  then have k: "ksyms h p = Some k" and kr: "ksym_ksymtab k = r" by simp_all
  show "\<exists>h' t'. ksymtab_ksym_mark h p = Ok h' \<and> ksymtabs h' r = Some t' \<and> is_marked_at h' p
      \<and> (if ksym_mark k then h' = h else unat (mark_count t') = unat (mark_count t) + 1)
      \<and> hash t' = hash t \<and> all_entered h' r = all_entered h r
      \<and> unat (mark_count t') = length (filter (is_marked_at h') (owned_records h' r))
      \<and> (all_entered h r \<longrightarrow> unat (mark_count t') = length (marked_records h' t'))"
  proof (cases "ksym_mark k")
    case True
    then have "k\<lparr>ksym_mark := True\<rparr> = k" by simp
    then have "(ksyms h)(p \<mapsto> k\<lparr>ksym_mark := True\<rparr>) = ksyms h"
      using k by (simp add: fun_upd_idem)
    then have "ksymtab_ksym_mark h p = Ok h"
      using k True by (simp add: ksymtab_ksym_mark_def)
    moreover have "is_marked_at h p"
      using k True by (simp add: is_marked_at_def ksymtab_ksym_is_marked_def)
    ultimately show ?thesis using True assms(3) c ce
      by (intro exI[of _ h] exI[of _ t]) simp
  next
    case False
    let ?h' = "h\<lparr>ksymtabs := (ksymtabs h)(r \<mapsto> t\<lparr>mark_count := mark_count t + 1\<rparr>),
                ksyms := (ksyms h)(p \<mapsto> k\<lparr>ksym_mark := True\<rparr>)\<rparr>"
    let ?t' = "t\<lparr>mark_count := mark_count t + 1\<rparr>"
    have run: "ksymtab_ksym_mark h p = Ok ?h'"
      using k kr False assms(3) by (simp add: ksymtab_ksym_mark_def)
    have t': "ksymtabs ?h' r = Some ?t'" by simp
    have r': "reachable ?h'" using assms(1) run by (rule reachable_mark)
    have inv': "heap_inv ?h'" using r' by (rule reachable_heap_inv)
    have c': "unat (mark_count ?t') = length (filter (is_marked_at ?h') (owned_records ?h' r))"
      using inv' _ t' by (rule mark_count_unat) (use assms(2) in simp)
    have own: "owned_records ?h' r = owned_records h r"
      by (rule mark_count_step(1)[OF b k False]) simp
    have "length (filter (is_marked_at ?h') (owned_records h r))
        = Suc (length (filter (is_marked_at h) (owned_records h r)))"
      using mark_count_step(2)[OF b k False, of ?h'] kr by simp
    then have inc: "unat (mark_count ?t') = unat (mark_count t) + 1"
      using c c' own by simp
    have en: "all_entered ?h' r = all_entered h r"
      using assms(3) own by (simp add: all_entered_def)
    have ce': "unat (mark_count ?t') = length (marked_records ?h' ?t')" if "all_entered h r"
      using c' all_entered_marked[OF inv' t'] en that by simp
    have m: "is_marked_at ?h' p"
      by (simp add: is_marked_at_def ksymtab_ksym_is_marked_def)
    have hh: "hash ?t' = hash t" by simp
    show ?thesis
    proof (intro exI[of _ ?h'] exI[of _ ?t'] conjI impI)
      show "ksymtab_ksym_mark h p = Ok ?h'" by (rule run)
      show "ksymtabs ?h' r = Some ?t'" by (rule t')
      show "is_marked_at ?h' p" by (rule m)
      show "if ksym_mark k then ?h' = h else unat (mark_count ?t') = unat (mark_count t) + 1"
        using False inc by (simp only: if_False)
      show "hash ?t' = hash t" by (rule hh)
      show "all_entered ?h' r = all_entered h r" by (rule en)
      show "unat (mark_count ?t') = length (filter (is_marked_at ?h') (owned_records ?h' r))" by (rule c')
      show "unat (mark_count ?t') = length (marked_records ?h' ?t')" if "all_entered h r"
        using that by (rule ce')
    qed
  qed
qed

theorem ksymtab_mark_count_invariant_witness:
  "reachable example_heap \<and> brk example_heap < 2 ^ 64
   \<and> ksymtabs example_heap 0 = Some \<lparr>hash = [(''foo'', 1)], mark_count = 0\<rparr>
   \<and> all_entered example_heap 0
   \<and> ksymtab_mark_count example_heap (Some 0) = Ok 0
   \<and> length (marked_records example_heap \<lparr>hash = [(''foo'', 1)], mark_count = 0\<rparr>) = 0
   \<and> (\<exists>h' t'. ksymtab_ksym_mark example_heap 1 = Ok h' \<and> ksymtabs h' 0 = Some t'
         \<and> is_marked_at h' 1 \<and> unat (mark_count t') = 1 \<and> length (marked_records h' t') = 1)
   \<and> (\<exists>h'. ksymtab_add_sym example_heap 0 ''bar'' 3 1 = Ok (2, h') \<and> all_entered h' 0)"
proof -
  let ?t = "\<lparr>hash = [(''foo'', 1)], mark_count = 0\<rparr>"
  let ?k = "\<lparr>ksym_value = 0, ksym_mark = False, ksym_link = None, ksym_ksymtab = 0, ksym_key = ''foo''\<rparr>"
  have b: "brk example_heap < 2 ^ 64" by (simp add: example_heap_eq)
  have t: "ksymtabs example_heap 0 = Some ?t" by (simp add: example_heap_eq)
  have k: "ksyms example_heap 1 = Some ?k \<and> ksym_ksymtab ?k = 0" by (simp add: example_heap_eq)
  have u: "[0..<2] = [0, Suc 0]" by (simp add: upt_rec)
  have en: "all_entered example_heap 0"
    by (simp add: all_entered_def owned_records_def is_owned_by_def example_heap_eq u)
  obtain h2 where add: "ksymtab_add_sym example_heap 0 ''bar'' 3 1 = Ok (2, h2)"
    by (simp add: example_heap_eq ksymtab_add_sym_def Let_def)
  have fresh: "c_str (take 3 ''bar'') \<notin> fst ` set (hash ?t)" by (simp add: c_str_def)
  note inst = ksymtab_mark_count_invariant[OF example_heap_reachable b t]
  from inst have 1: "ksymtab_mark_count example_heap (Some 0) = Ok 0" by simp
  from inst en have 2: "length (marked_records example_heap ?t) = 0" by simp
  from inst k have "\<exists>h' t'. ksymtab_ksym_mark example_heap 1 = Ok h' \<and> ksymtabs h' 0 = Some t' \<and> is_marked_at h' 1
             \<and> (if ksym_mark ?k then h' = example_heap else unat (mark_count t') = unat (mark_count ?t) + 1)
             \<and> hash t' = hash ?t \<and> all_entered h' 0 = all_entered example_heap 0
             \<and> unat (mark_count t') = length (filter (is_marked_at h') (owned_records h' 0))
             \<and> (all_entered example_heap 0 \<longrightarrow> unat (mark_count t') = length (marked_records h' t'))"
    by blast
  with en have 3: "\<exists>h' t'. ksymtab_ksym_mark example_heap 1 = Ok h' \<and> ksymtabs h' 0 = Some t'
         \<and> is_marked_at h' 1 \<and> unat (mark_count t') = 1 \<and> length (marked_records h' t') = 1"
    by auto
  from inst en fresh add have 4: "all_entered h2 0" by blast
  show ?thesis using example_heap_reachable b t en 1 2 3 4 add by blast
qed

subsection \<open>Duplication\<close>

lemma c_str_take_strlen: "take (strlen (s @ [NUL])) (s @ [NUL]) = c_str s"
proof -
  have "c_str (s @ [NUL]) = c_str s"
    unfolding c_str_def by (induction s) auto
  moreover have "take (length (takeWhile P xs)) xs = takeWhile P xs" for P and xs :: string
    by (induction xs) auto
  ultimately show ?thesis
    unfolding strlen_def c_str_def by metis
qed

lemma ksym_link_text_frame:
  assumes "ksyms h' q = ksyms h q"
    and "\<And>k l. ksyms h q = Some k \<Longrightarrow> ksym_link k = Some l \<Longrightarrow> strings h' l = strings h l"
  shows "ksym_link_text h' q = ksym_link_text h q"
  using assms by (auto simp: ksym_link_text_def split: option.splits)

lemma strings_freed_other:
  assumes "inv_link h" and "ksyms h p = Some k" and "q \<noteq> p" and "ksyms h q = Some k'" and "ksym_link k' = Some l"
  shows "strings_freed h k l = strings h l"
proof -
  have "ksym_link k \<noteq> Some l"
    using inv_link_unshared[OF assms(1,2) _ assms(4,5)] assms(3) by blast
  then show ?thesis by (auto simp: strings_freed_def split: option.splits)
qed

lemma set_link_other:
  assumes inv: "heap_inv h" and ne: "q \<noteq> p" and run: "ksymtab_ksym_set_link h p link = Ok h'"
  shows "ksym_link_text h' q = ksym_link_text h q"
proof -
  from inv have b: "inv_brk h" and l: "inv_link h" by (simp_all add: heap_inv_def)
  from set_link_OkD[OF run] obtain k where k: "ksyms h p = Some k"
    and eff: "case link of
        None \<Rightarrow> h' = h\<lparr>strings := strings_freed h k, ksyms := (ksyms h)(p \<mapsto> k\<lparr>ksym_link := None\<rparr>)\<rparr>
      | Some l' \<Rightarrow> \<exists>s0. strings_freed h k l' = Some s0 \<and>
          h' = h\<lparr>strings := (strings_freed h k)(brk h \<mapsto> s0), brk := Suc (brk h),
                 ksyms := (ksyms h)(p \<mapsto> k\<lparr>ksym_link := Some (brk h)\<rparr>)\<rparr>"
    by blast
  show ?thesis
  proof (rule ksym_link_text_frame)
    show "ksyms h' q = ksyms h q"
      using eff ne by (auto split: option.splits)
    fix k' l0 assume q: "ksyms h q = Some k'" "ksym_link k' = Some l0"
    have keep: "strings_freed h k l0 = strings h l0"
      using strings_freed_other[OF l k ne q] .
    have "strings h l0 \<noteq> None" using inv_link_live[OF l q] .
    then have "l0 \<noteq> brk h" using b unfolding inv_brk_def by (metis domIff less_irrefl)
    then show "strings h' l0 = strings h l0"
      using eff keep by (auto split: option.splits)
  qed
qed

lemma ksym_free_other:
  assumes inv: "heap_inv h" and ne: "q \<noteq> p" and run: "ksymtab_ksym_free h p = Ok h'"
  shows "ksym_link_text h' q = ksym_link_text h q"
proof -
  from inv have l: "inv_link h" by (simp add: heap_inv_def)
  from run obtain k where k: "ksyms h p = Some k"
    and h': "h' = h\<lparr>strings := strings_freed h k, ksyms := (ksyms h)(p := None)\<rparr>"
    by (auto simp: ksymtab_ksym_free_def free_string_def strings_freed_def split: option.splits res.splits)
  show ?thesis
  proof (rule ksym_link_text_frame)
    show "ksyms h' q = ksyms h q" using ne unfolding h' by simp
    fix k' l0 assume q: "ksyms h q = Some k'" "ksym_link k' = Some l0"
    show "strings h' l0 = strings h l0"
      using strings_freed_other[OF l k ne q] unfolding h' by simp
  qed
qed

lemma c_str_idem: "c_str (c_str s) = c_str s"
  unfolding c_str_def by (simp add: takeWhile_eq_all_conv)

lemma c_str_snoc_NUL: "c_str (s @ [NUL]) = c_str s"
  unfolding c_str_def by (induction s) auto

lemma hash_find_add: "hash_find (hash_add hs key v) key = Some v"
  by (simp add: hash_find_def hash_add_def)

lemma copy_sym_effect:
  assumes inv: "heap_inv h" and t: "ksymtabs h r = Some t" and k: "ksyms h p = Some k"
  shows "\<exists>h1 h'. ksymtab_add_sym h r (ksymtab_ksym_get_name k) (strlen (ksymtab_ksym_get_name k)) (ksym_value k) = Ok (brk h, h1)
      \<and> ksymtab_ksym_set_link h1 (brk h) (ksym_link k) = Ok h'
      \<and> ksymtab_copy_sym h r p = Ok (brk h, h')
      \<and> ksyms h' p = Some k
      \<and> ksymtabs h' = (ksymtabs h)(r \<mapsto> t\<lparr>hash := hash_add (hash t) (c_str (ksym_key k)) (brk h)\<rparr>)
      \<and> (\<exists>l'. ksyms h' (brk h) = Some \<lparr>ksym_value = ksym_value k, ksym_mark = False, ksym_link = l',
             ksym_ksymtab = r, ksym_key = c_str (ksym_key k)\<rparr>
           \<and> (case ksym_link k of None \<Rightarrow> l' = None
               | Some l \<Rightarrow> l' = Some (Suc (brk h)) \<and> strings h' (Suc (brk h)) = strings h l \<and> strings h' l = strings h l))"
proof -
  from inv have b: "inv_brk h" and l: "inv_link h" by (simp_all add: heap_inv_def)
  let ?name = "ksymtab_ksym_get_name k"
  let ?new = "\<lparr>ksym_value = ksym_value k, ksym_mark = False, ksym_link = None,
             ksym_ksymtab = r, ksym_key = c_str (ksym_key k)\<rparr>"
  let ?h1 = "h\<lparr>ksymtabs := (ksymtabs h)(r \<mapsto> t\<lparr>hash := hash_add (hash t) (c_str (ksym_key k)) (brk h)\<rparr>),
               ksyms := (ksyms h)(brk h \<mapsto> ?new), brk := Suc (brk h)\<rparr>"
  have key: "take (strlen ?name) ?name = c_str (ksym_key k)"
    unfolding ksymtab_ksym_get_name_def by (rule c_str_take_strlen)
  have len: "\<not> length ?name < strlen ?name"
    unfolding strlen_def c_str_def using length_takeWhile_le[of _ ?name] by (simp add: not_less)
  have add: "ksymtab_add_sym h r ?name (strlen ?name) (ksym_value k) = Ok (brk h, ?h1)"
    using t len by (simp add: ksymtab_add_sym_def Let_def key)
  have pne: "p \<noteq> brk h" using inv_brk_ksyms[OF b k] by simp
  show ?thesis
  proof (cases "ksym_link k")
    case None
    have "(ksyms ?h1)(brk h \<mapsto> ?new\<lparr>ksym_link := None\<rparr>) = ksyms ?h1" by (simp add: fun_upd_idem)
    then have sl: "ksymtab_ksym_set_link ?h1 (brk h) (ksym_link k) = Ok ?h1"
      by (simp add: ksymtab_ksym_set_link_def safe_strdup_or_null_def None)
    have cp: "ksymtab_copy_sym h r p = Ok (brk h, ?h1)"
      using k add sl
      by (simp add: ksymtab_copy_sym_def Let_def ksymtab_ksym_get_value_def ksymtab_ksym_get_link_def)
    show ?thesis
      using add sl cp pne k None by (intro exI[of _ ?h1]) simp
  next
    case (Some l0)
    then obtain s0 where s0: "strings h l0 = Some s0"
      using inv_link_live[OF l k Some] by blast
    have l0: "l0 < brk h" using inv_brk_strings[OF b s0] .
    let ?h2 = "?h1\<lparr>strings := (strings h)(Suc (brk h) \<mapsto> s0), brk := Suc (Suc (brk h)),
                   ksyms := (ksyms ?h1)(brk h \<mapsto> ?new\<lparr>ksym_link := Some (Suc (brk h))\<rparr>)\<rparr>"
    have sl: "ksymtab_ksym_set_link ?h1 (brk h) (ksym_link k) = Ok ?h2"
      using s0 by (simp add: ksymtab_ksym_set_link_def safe_strdup_or_null_def strdup_def Some)
    have cp: "ksymtab_copy_sym h r p = Ok (brk h, ?h2)"
      using k add sl
      by (simp add: ksymtab_copy_sym_def Let_def ksymtab_ksym_get_value_def ksymtab_ksym_get_link_def)
    show ?thesis
      using add sl cp pne k Some s0 l0 by (intro exI[of _ ?h1] exI[of _ ?h2]) simp
  qed
qed

text \<open>
  Claim C8.  In a heap built by the registry operations, duplicating a live record into a
  live registry succeeds and yields a record at an address not used before, entered in the
  container of that registry under the name of the source, so that the lookup of the name
  in that registry returns it; the other registries are as they were.  The new record has
  the name and value of the source, a clear mark flag, the target registry as owner, and a
  link with the same text held in a string of its own.  The source is unchanged.  Setting
  the link of the one, or freeing the one, leaves the link text of the other as it was.
\<close>

theorem ksymtab_copy_sym_independent:
  assumes "reachable h" and "ksymtabs h r = Some t" and "ksyms h p = Some k"
  shows "\<exists>q h' k'. ksymtab_copy_sym h r p = Ok (q, h') \<and> q \<noteq> p \<and> ksyms h q = None
     \<and> ksyms h' q = Some k' \<and> ksyms h' p = Some k
     \<and> ksymtabs h' r = Some (t\<lparr>hash := hash_add (hash t) (ksymtab_ksym_get_name k) q\<rparr>)
     \<and> (\<forall>r'. r' \<noteq> r \<longrightarrow> ksymtabs h' r' = ksymtabs h r')
     \<and> ksymtab_find h' (Some r) (Some (ksymtab_ksym_get_name k)) = Ok (Some q)
     \<and> c_str (ksymtab_ksym_get_name k') = c_str (ksymtab_ksym_get_name k)
     \<and> ksym_value k' = ksym_value k \<and> \<not> ksym_mark k' \<and> ksym_ksymtab k' = r
     \<and> ksym_link_text h p \<noteq> Undefined
     \<and> ksym_link_text h' q = ksym_link_text h p \<and> ksym_link_text h' p = ksym_link_text h p
     \<and> (ksym_link k \<noteq> None \<longrightarrow> ksym_link k' \<noteq> None \<and> ksym_link k' \<noteq> ksym_link k)
     \<and> (\<forall>link h''. ksymtab_ksym_set_link h' p link = Ok h'' \<longrightarrow> ksym_link_text h'' q = ksym_link_text h' q)
     \<and> (\<forall>link h''. ksymtab_ksym_set_link h' q link = Ok h'' \<longrightarrow> ksym_link_text h'' p = ksym_link_text h' p)
     \<and> (\<forall>h''. ksymtab_ksym_free h' p = Ok h'' \<longrightarrow> ksym_link_text h'' q = ksym_link_text h' q)
     \<and> (\<forall>h''. ksymtab_ksym_free h' q = Ok h'' \<longrightarrow> ksym_link_text h'' p = ksym_link_text h' p)"
proof -
  have inv: "heap_inv h" using assms(1) by (rule reachable_heap_inv)
  then have b: "inv_brk h" and l: "inv_link h" by (simp_all add: heap_inv_def)
  from copy_sym_effect[OF inv assms(2,3)] obtain h1 h' l' where
    add: "ksymtab_add_sym h r (ksymtab_ksym_get_name k) (strlen (ksymtab_ksym_get_name k)) (ksym_value k) = Ok (brk h, h1)"
    and sl: "ksymtab_ksym_set_link h1 (brk h) (ksym_link k) = Ok h'"
    and cp: "ksymtab_copy_sym h r p = Ok (brk h, h')"
    and p': "ksyms h' p = Some k"
    and kt: "ksymtabs h' = (ksymtabs h)(r \<mapsto> t\<lparr>hash := hash_add (hash t) (c_str (ksym_key k)) (brk h)\<rparr>)"
    and q': "ksyms h' (brk h) = Some \<lparr>ksym_value = ksym_value k, ksym_mark = False, ksym_link = l',
             ksym_ksymtab = r, ksym_key = c_str (ksym_key k)\<rparr>"
    and lk: "case ksym_link k of None \<Rightarrow> l' = None
               | Some l \<Rightarrow> l' = Some (Suc (brk h)) \<and> strings h' (Suc (brk h)) = strings h l \<and> strings h' l = strings h l"
    by blast
  let ?q = "brk h"
  let ?k' = "\<lparr>ksym_value = ksym_value k, ksym_mark = False, ksym_link = l',
             ksym_ksymtab = r, ksym_key = c_str (ksym_key k)\<rparr>"
  have "reachable h1" using assms(1) add by (rule reachable_add_sym)
  then have "reachable h'" using sl by (rule reachable_set_link)
  then have inv': "heap_inv h'" by (rule reachable_heap_inv)
  have ne: "?q \<noteq> p" using inv_brk_ksyms[OF b assms(3)] by simp
  have fresh: "ksyms h ?q = None"
    using inv_brk_fresh(2)[OF b, of ?q] by simp
  have hk: "hash_add (hash t) (c_str (ksym_key k)) ?q = hash_add (hash t) (ksymtab_ksym_get_name k) ?q"
    by (simp add: hash_add_def ksymtab_ksym_get_name_def c_str_idem c_str_snoc_NUL)
  have reg: "ksymtabs h' r = Some (t\<lparr>hash := hash_add (hash t) (ksymtab_ksym_get_name k) ?q\<rparr>)"
    unfolding kt hk by simp
  have oth: "\<forall>r'. r' \<noteq> r \<longrightarrow> ksymtabs h' r' = ksymtabs h r'"
    unfolding kt by simp
  have fnd: "ksymtab_find h' (Some r) (Some (ksymtab_ksym_get_name k)) = Ok (Some ?q)"
    by (simp add: ksymtab_find_def reg hash_find_add)
  have name: "c_str (ksymtab_ksym_get_name ?k') = c_str (ksymtab_ksym_get_name k)"
    by (simp add: ksymtab_ksym_get_name_def c_str_idem c_str_snoc_NUL)
  have def: "ksym_link_text h p \<noteq> Undefined"
    using assms(3) inv_link_live[OF l assms(3)]
    by (auto simp: ksym_link_text_def split: option.splits)
  have tq: "ksym_link_text h' ?q = ksym_link_text h p"
    using q' lk assms(3) by (auto simp: ksym_link_text_def split: option.splits)
  have tp: "ksym_link_text h' p = ksym_link_text h p"
    using p' lk assms(3) by (auto simp: ksym_link_text_def split: option.splits)
  have ptr: "ksym_link k \<noteq> None \<longrightarrow> ksym_link ?k' \<noteq> None \<and> ksym_link ?k' \<noteq> ksym_link k"
  proof
    assume "ksym_link k \<noteq> None"
    then obtain l0 where l0: "ksym_link k = Some l0" by blast
    then obtain s0 where "strings h l0 = Some s0" using inv_link_live[OF l assms(3)] by blast
    then have "l0 < brk h" using inv_brk_strings[OF b] by blast
    then show "ksym_link ?k' \<noteq> None \<and> ksym_link ?k' \<noteq> ksym_link k"
      using lk l0 by simp
  qed
  have i1: "\<forall>link h''. ksymtab_ksym_set_link h' p link = Ok h'' \<longrightarrow> ksym_link_text h'' ?q = ksym_link_text h' ?q"
    using set_link_other[OF inv' ne] by blast
  have i2: "\<forall>link h''. ksymtab_ksym_set_link h' ?q link = Ok h'' \<longrightarrow> ksym_link_text h'' p = ksym_link_text h' p"
    using set_link_other[OF inv' ne[symmetric]] by blast
  have i3: "\<forall>h''. ksymtab_ksym_free h' p = Ok h'' \<longrightarrow> ksym_link_text h'' ?q = ksym_link_text h' ?q"
    using ksym_free_other[OF inv' ne] by blast
  have i4: "\<forall>h''. ksymtab_ksym_free h' ?q = Ok h'' \<longrightarrow> ksym_link_text h'' p = ksym_link_text h' p"
    using ksym_free_other[OF inv' ne[symmetric]] by blast
  have props: "ksym_value ?k' = ksym_value k \<and> \<not> ksym_mark ?k' \<and> ksym_ksymtab ?k' = r"
    by simp
  show ?thesis
    apply (intro exI[of _ ?q] exI[of _ h'] exI[of _ ?k'])
    using cp ne fresh q' p' reg oth fnd name props def tq tp ptr i1 i2 i3 i4
    apply (intro conjI)
    apply (assumption | (elim conjE, assumption))+
    done
qed

lemma linked_heap_eq:
  "linked_heap =
     \<lparr>ksymtabs = [0 \<mapsto> \<lparr>hash = [(''foo'', 1)], mark_count = 0\<rparr>],
      ksyms = [1 \<mapsto> \<lparr>ksym_value = 0, ksym_mark = False, ksym_link = Some 3, ksym_ksymtab = 0,
                      ksym_key = ''foo''\<rparr>],
      strings = [2 \<mapsto> ''alias'', 3 \<mapsto> ''alias''], brk = 4\<rparr>"
  by (simp add: linked_heap_def example_heap_eq strdup_def ksymtab_ksym_set_link_def
      safe_strdup_or_null_def eval_nat_numeral)

lemma linked_heap_set_link:
  "ksymtab_ksym_set_link (snd (strdup example_heap ''alias'')) 1 (Some 2) = Ok linked_heap"
  by (simp add: linked_heap_def example_heap_eq strdup_def ksymtab_ksym_set_link_def
      safe_strdup_or_null_def eval_nat_numeral)

lemma linked_heap_reachable: "reachable linked_heap"
  using reachable_set_link[OF reachable_strdup[OF example_heap_reachable] linked_heap_set_link] .

lemma two_registry_heap_eq:
  "two_registry_heap =
     \<lparr>ksymtabs = [0 \<mapsto> \<lparr>hash = [(''foo'', 1)], mark_count = 0\<rparr>, 4 \<mapsto> \<lparr>hash = [], mark_count = 0\<rparr>],
      ksyms = [1 \<mapsto> \<lparr>ksym_value = 0, ksym_mark = False, ksym_link = Some 3, ksym_ksymtab = 0,
                      ksym_key = ''foo''\<rparr>],
      strings = [2 \<mapsto> ''alias'', 3 \<mapsto> ''alias''], brk = 5\<rparr>"
  by (simp add: two_registry_heap_def linked_heap_eq ksymtab_new_def Let_def hash_new_def)

lemma two_registry_heap_reachable: "reachable two_registry_heap"
  unfolding two_registry_heap_def using linked_heap_reachable by (rule reachable_new)

theorem ksymtab_copy_sym_independent_witness:
  "reachable two_registry_heap
   \<and> ksymtabs two_registry_heap 4 = Some \<lparr>hash = [], mark_count = 0\<rparr>
   \<and> ksyms two_registry_heap 1 = Some \<lparr>ksym_value = 0, ksym_mark = False, ksym_link = Some 3,
                                  ksym_ksymtab = 0, ksym_key = ''foo''\<rparr>
   \<and> ksymtab_find two_registry_heap (Some 4) (Some (''foo'' @ [NUL])) = Ok None
   \<and> (\<exists>h' h''. ksymtab_copy_sym two_registry_heap 4 1 = Ok (5, h')
         \<and> ksymtabs h' 4 = Some \<lparr>hash = [(''foo'', 5)], mark_count = 0\<rparr>
         \<and> ksymtabs h' 0 = Some \<lparr>hash = [(''foo'', 1)], mark_count = 0\<rparr>
         \<and> ksymtab_find h' (Some 4) (Some (''foo'' @ [NUL])) = Ok (Some 5)
         \<and> ksym_link_text h' 5 = Ok (Some ''alias'')
         \<and> ksymtab_ksym_set_link h' 1 None = Ok h''
         \<and> ksym_link_text h'' 1 = Ok None
         \<and> ksym_link_text h'' 5 = Ok (Some ''alias''))"
proof -
  let ?t = "\<lparr>hash = [], mark_count = 0\<rparr>"
  let ?k = "\<lparr>ksym_value = 0, ksym_mark = False, ksym_link = Some 3, ksym_ksymtab = 0, ksym_key = ''foo''\<rparr>"
  have t: "ksymtabs two_registry_heap 4 = Some ?t" and k: "ksyms two_registry_heap 1 = Some ?k"
    and t0: "ksymtabs two_registry_heap 0 = Some \<lparr>hash = [(''foo'', 1)], mark_count = 0\<rparr>"
    by (simp_all add: two_registry_heap_eq)
  have lt: "ksym_link_text two_registry_heap 1 = Ok (Some ''alias'')"
    by (simp add: two_registry_heap_eq ksym_link_text_def)
  have f0: "ksymtab_find two_registry_heap (Some 4) (Some (''foo'' @ [NUL])) = Ok None"
    by (simp add: two_registry_heap_eq ksymtab_find_def hash_find_def)
  from ksymtab_copy_sym_independent[OF two_registry_heap_reachable t k]
  obtain q h' where cp: "ksymtab_copy_sym two_registry_heap 4 1 = Ok (q, h')"
    and fresh: "ksyms two_registry_heap q = None"
    and reg: "ksymtabs h' 4 = Some (?t\<lparr>hash := hash_add (hash ?t) (ksymtab_ksym_get_name ?k) q\<rparr>)"
    and oth: "\<forall>r'. r' \<noteq> 4 \<longrightarrow> ksymtabs h' r' = ksymtabs two_registry_heap r'"
    and fnd: "ksymtab_find h' (Some 4) (Some (ksymtab_ksym_get_name ?k)) = Ok (Some q)"
    and tq: "ksym_link_text h' q = ksym_link_text two_registry_heap 1"
    and ind: "\<forall>link h''. ksymtab_ksym_set_link h' 1 link = Ok h'' \<longrightarrow> ksym_link_text h'' q = ksym_link_text h' q"
    by blast
  have q: "q = 5"
    using cp
    by (simp add: two_registry_heap_eq ksymtab_copy_sym_def ksymtab_add_sym_def Let_def
        ksymtab_ksym_get_name_def ksymtab_ksym_get_value_def ksymtab_ksym_get_link_def
        strlen_def c_str_def split: res.splits)
  have p': "ksyms h' 1 = Some ?k" and s3: "strings h' 3 = Some ''alias''"
    using cp
    by (auto simp: two_registry_heap_eq ksymtab_copy_sym_def ksymtab_add_sym_def Let_def
        ksymtab_ksym_get_name_def ksymtab_ksym_get_value_def ksymtab_ksym_get_link_def
        ksymtab_ksym_set_link_def safe_strdup_or_null_def strdup_def
        strlen_def c_str_def split: res.splits)
  let ?h'' = "h'\<lparr>strings := (strings h')(3 := None), ksyms := (ksyms h')(1 \<mapsto> ?k\<lparr>ksym_link := None\<rparr>)\<rparr>"
  have sl: "ksymtab_ksym_set_link h' 1 None = Ok ?h''"
    using p' s3 by (simp add: ksymtab_ksym_set_link_def free_string_def safe_strdup_or_null_def)
  have r4: "ksymtabs h' 4 = Some \<lparr>hash = [(''foo'', 5)], mark_count = 0\<rparr>"
    using reg q by (simp add: hash_add_def ksymtab_ksym_get_name_def c_str_def)
  have r0: "ksymtabs h' 0 = Some \<lparr>hash = [(''foo'', 1)], mark_count = 0\<rparr>"
    using oth t0 by simp
  have f4: "ksymtab_find h' (Some 4) (Some (''foo'' @ [NUL])) = Ok (Some 5)"
    using fnd q by (simp add: ksymtab_ksym_get_name_def)
  have "ksym_link_text ?h'' 1 = Ok None"
    by (simp add: ksym_link_text_def)
  moreover have "ksym_link_text ?h'' 5 = Ok (Some ''alias'')"
    using ind sl tq lt q by simp
  moreover have "ksym_link_text h' 5 = Ok (Some ''alias'')"
    using tq lt q by simp
  ultimately show ?thesis
    using two_registry_heap_reachable t k f0 cp q sl r4 r0 f4 by blast
qed

subsection \<open>The registry the splitter returns\<close>

lemma parse_ksymtab_strings_OkD:
  assumes "parse_ksymtab_strings h0 d_buf = (Ok a, h)"
  shows "a = brk h0 \<and> insert_all (snd (ksymtab_new h0 KSYMTAB_SIZE)) a 0 (nonempty_spans d_buf) = Ok h"
proof -
  have ne: "d_buf \<noteq> []"
    using assms by (auto simp: parse_ksymtab_strings_def ksymtab_new_def Let_def)
  have "d_buf ! (length d_buf - 1) = NUL"
    using assms ne
    by (auto simp: parse_ksymtab_strings_def ksymtab_new_def Let_def split: if_splits res.splits)
  then have "last d_buf = NUL"
    using ne by (simp add: last_conv_nth)
  from parse_ksymtab_strings_run[OF ne this, of h0] assms show ?thesis
    by (auto split: res.splits)
qed

lemma insert_all_reachable:
  "reachable h \<Longrightarrow> insert_all h res n names = Ok h' \<Longrightarrow> reachable h'"
proof (induction names arbitrary: h n)
  case Nil
  then show ?case by simp
next
  case (Cons s ss)
  from Cons.prems(2) obtain new h1 where
    add: "ksymtab_add_sym h res s (length s) (of_nat n) = Ok (new, h1)"
    and rest: "insert_all h1 res (Suc n) ss = Ok h'"
    by (auto split: res.splits)
  have "reachable h1" using Cons.prems(1) add by (rule reachable_add_sym)
  then show ?case using rest by (rule Cons.IH)
qed

lemma parse_ksymtab_strings_reachable:
  assumes "reachable h0" and "parse_ksymtab_strings h0 d_buf = (Ok a, h)"
  shows "reachable h"
  using insert_all_reachable[OF reachable_new[OF assms(1)]] parse_ksymtab_strings_OkD[OF assms(2)]
  by blast

lemma parse_ksymtab_strings_keys:
  assumes "parse_ksymtab_strings h0 d_buf = (Ok a, h)"
  shows "\<exists>t. ksymtabs h a = Some t \<and> fst ` set (hash t) = set (nonempty_spans d_buf)"
proof -
  let ?h1 = "snd (ksymtab_new h0 KSYMTAB_SIZE)"
  from parse_ksymtab_strings_OkD[OF assms] have a: "a = brk h0"
    and run: "insert_all ?h1 a 0 (nonempty_spans d_buf) = Ok h" by blast+
  have t1: "ksymtabs ?h1 a = Some \<lparr>hash = [], mark_count = 0\<rparr>"
    unfolding a by (simp add: ksymtab_new_def Let_def hash_new_def)
  from insert_all_created[OF t1, of 0 "nonempty_spans d_buf"] run obtain t where
    t: "ksymtabs h a = Some t"
    and keys: "fst ` set (hash t) = fst ` set (hash \<lparr>hash = [], mark_count = 0\<rparr>) \<union> c_str ` set (nonempty_spans d_buf)"
    by auto
  have "c_str ` set (nonempty_spans d_buf) = set (nonempty_spans d_buf)"
    using nonempty_spans_props[of _ d_buf] by force
  then show ?thesis using t keys by simp
qed

lemma split_heap_run:
  "parse_ksymtab_strings empty_heap (''foo'' @ [NUL, NUL] @ ''bar'' @ [NUL]) = (Ok 0, split_heap)"
proof -
  let ?d = "''foo'' @ [NUL, NUL] @ ''bar'' @ [NUL]"
  have a: "?d \<noteq> []" and b: "last ?d = NUL" by simp_all
  have n: "nonempty_spans ?d = [''foo'', ''bar'']"
    by (simp add: nonempty_spans_def)
  have "\<exists>h. parse_ksymtab_strings empty_heap ?d = (Ok 0, h)"
    unfolding parse_ksymtab_strings_run[OF a b] n
    by (simp add: ksymtab_new_def Let_def empty_heap_def ksymtab_add_sym_def hash_new_def)
  then show ?thesis
    unfolding split_heap_def by auto
qed

lemma split_heap_registry:
  "ksymtabs split_heap 0 = Some \<lparr>hash = [(''bar'', 2), (''foo'', 1)], mark_count = 0\<rparr>
   \<and> ksyms split_heap 1 = Some \<lparr>ksym_value = 0, ksym_mark = False, ksym_link = None, ksym_ksymtab = 0,
                                 ksym_key = ''foo''\<rparr>"
proof -
  let ?d = "''foo'' @ [NUL, NUL] @ ''bar'' @ [NUL]"
  have a: "?d \<noteq> []" and b: "last ?d = NUL" by simp_all
  have n: "nonempty_spans ?d = [''foo'', ''bar'']"
    by (simp add: nonempty_spans_def)
  show ?thesis
    unfolding split_heap_def parse_ksymtab_strings_run[OF a b] n
    by (simp add: ksymtab_new_def Let_def empty_heap_def ksymtab_add_sym_def hash_new_def
        hash_add_def c_str_def eval_nat_numeral)
qed

subsection \<open>Lookup, length and iteration\<close>

text \<open>
  Claim C9, as stated, fails: in the registry whose record has the empty name, the lookup
  of the empty string returns that record.
\<close>

theorem ksymtab_find_empty_key_counterexample:
  "reachable empty_key_heap \<and> ksymtab_find empty_key_heap (Some 0) (Some [NUL]) = Ok (Some 1)"
proof -
  have add: "ksymtab_add_sym (snd (ksymtab_new empty_heap KSYMTAB_SIZE)) 0 [NUL] 0 7 = Ok (1, empty_key_heap)"
    by (simp add: empty_key_heap_def ksymtab_new_def ksymtab_add_sym_def empty_heap_def Let_def)
  have "reachable empty_key_heap"
    using reachable_add_sym[OF reachable_new[OF reachable_empty] add] .
  moreover have "ksymtab_find empty_key_heap (Some 0) (Some [NUL]) = Ok (Some 1)"
    by (simp add: empty_key_heap_def ksymtab_new_def ksymtab_add_sym_def empty_heap_def Let_def
        ksymtab_find_def hash_find_def hash_add_def hash_new_def c_str_def)
  ultimately show ?thesis by simp
qed

text \<open>
  Claim C9, amended.  On a live registry a lookup never fails: with a NULL name, and with a
  name that no record is stored under, the result is ``not found''; with a name some record
  is stored under, the result is a record stored under it, and in a heap built by the
  registry operations it is the one record stored under that name: a live record of this
  registry whose name is the name looked up.  The empty string is looked up like any other
  name: it is not found exactly when no record is stored under the empty name, and that is
  so in every registry the splitter returns.
\<close>

theorem ksymtab_find_outcomes:
  assumes "ksymtabs h a = Some t"
  shows "ksymtab_find h (Some a) None = Ok None
     \<and> (\<forall>n. c_str n \<notin> fst ` set (hash t) \<longrightarrow> ksymtab_find h (Some a) (Some n) = Ok None)
     \<and> (\<forall>n. c_str n \<in> fst ` set (hash t) \<longrightarrow>
           (\<exists>v. ksymtab_find h (Some a) (Some n) = Ok (Some v) \<and> (c_str n, v) \<in> set (hash t)))
     \<and> (reachable h \<longrightarrow>
           (\<forall>n v. (c_str n, v) \<in> set (hash t) \<longrightarrow>
              ksymtab_find h (Some a) (Some n) = Ok (Some v)
              \<and> (\<exists>k. ksyms h v = Some k \<and> ksym_ksymtab k = a
                     \<and> c_str (ksymtab_ksym_get_name k) = c_str n)))
     \<and> (ksymtab_find h (Some a) (Some [NUL]) = Ok None \<longleftrightarrow> [] \<notin> fst ` set (hash t))
     \<and> (\<forall>h0 d_buf. parse_ksymtab_strings h0 d_buf = (Ok a, h) \<longrightarrow>
           ksymtab_find h (Some a) (Some [NUL]) = Ok None)"
proof (intro conjI allI impI)
  show "ksymtab_find h (Some a) None = Ok None"
    using assms by (simp add: ksymtab_find_def)
  show "ksymtab_find h (Some a) (Some n) = Ok None" if "c_str n \<notin> fst ` set (hash t)" for n
  proof -
    have "map_of (hash t) (c_str n) = None" using that by (simp add: map_of_eq_None_iff)
    then show ?thesis using assms by (simp add: ksymtab_find_def hash_find_def)
  qed
  show "\<exists>v. ksymtab_find h (Some a) (Some n) = Ok (Some v) \<and> (c_str n, v) \<in> set (hash t)"
    if "c_str n \<in> fst ` set (hash t)" for n
  proof -
    have "map_of (hash t) (c_str n) \<noteq> None" using that by (simp add: map_of_eq_None_iff)
    then obtain v where v: "map_of (hash t) (c_str n) = Some v" by blast
    then have "(c_str n, v) \<in> set (hash t)" by (rule map_of_SomeD)
    then show ?thesis using assms v by (simp add: ksymtab_find_def hash_find_def)
  qed
  have empty: "ksymtab_find h (Some a) (Some [NUL]) = Ok None \<longleftrightarrow> [] \<notin> fst ` set (hash t)"
  proof -
    have "map_of (hash t) [] = None \<longleftrightarrow> [] \<notin> fst ` set (hash t)"
      by (simp add: map_of_eq_None_iff)
    then show ?thesis
      using assms by (auto simp: ksymtab_find_def hash_find_def c_str_def split: option.splits)
  qed
  show "ksymtab_find h (Some a) (Some [NUL]) = Ok None \<longleftrightarrow> [] \<notin> fst ` set (hash t)"
    by (rule empty)
  show "ksymtab_find h (Some a) (Some [NUL]) = Ok None"
    if "parse_ksymtab_strings h0 d_buf = (Ok a, h)" for h0 d_buf
  proof -
    from parse_ksymtab_strings_keys[OF that] assms
    have "fst ` set (hash t) = set (nonempty_spans d_buf)" by auto
    moreover have "[] \<notin> set (nonempty_spans d_buf)"
      using nonempty_spans_props[of "[]" d_buf] by blast
    ultimately show ?thesis using empty by simp
  qed
  fix n v assume r: "reachable h" and e: "(c_str n, v) \<in> set (hash t)"
  have o: "inv_owner h"
    using reachable_heap_inv[OF r] by (simp add: heap_inv_def)
  have "distinct (map fst (hash t))"
    using inv_owner_distinct[OF o assms] by simp
  then have "map_of (hash t) (c_str n) = Some v"
    using e by (rule map_of_is_SomeI)
  then show "ksymtab_find h (Some a) (Some n) = Ok (Some v)"
    using assms by (simp add: ksymtab_find_def hash_find_def)
  from inv_owner_entry[OF o assms e] obtain k where
    "ksyms h v = Some k" "ksym_ksymtab k = a" "c_str n = c_str (ksym_key k)" by auto
  then show "\<exists>k. ksyms h v = Some k \<and> ksym_ksymtab k = a \<and> c_str (ksymtab_ksym_get_name k) = c_str n"
    by (simp add: ksymtab_ksym_get_name_def c_str_snoc_NUL)
qed

theorem ksymtab_find_outcomes_witness:
  "ksymtabs split_heap 0 = Some \<lparr>hash = [(''bar'', 2), (''foo'', 1)], mark_count = 0\<rparr>
   \<and> reachable split_heap
   \<and> parse_ksymtab_strings empty_heap (''foo'' @ [NUL, NUL] @ ''bar'' @ [NUL]) = (Ok 0, split_heap)
   \<and> ksymtab_find split_heap (Some 0) None = Ok None
   \<and> ksymtab_find split_heap (Some 0) (Some (''baz'' @ [NUL])) = Ok None
   \<and> ksymtab_find split_heap (Some 0) (Some (''foo'' @ [NUL])) = Ok (Some 1)
   \<and> map_option ksym_view (ksyms split_heap 1) = Some (''foo'', 0, False, None, 0)
   \<and> ksymtab_find split_heap (Some 0) (Some [NUL]) = Ok None"
proof -
  let ?t = "\<lparr>hash = [(''bar'', 2), (''foo'', 1)], mark_count = 0\<rparr>"
  have t: "ksymtabs split_heap 0 = Some ?t" using split_heap_registry by simp
  have r: "reachable split_heap"
    using parse_ksymtab_strings_reachable[OF reachable_empty split_heap_run] .
  have baz: "c_str (''baz'' @ [NUL]) \<notin> fst ` set (hash ?t)" by (simp add: c_str_def)
  have foo: "(c_str (''foo'' @ [NUL]), 1) \<in> set (hash ?t)" by (simp add: c_str_def)
  have v: "map_option ksym_view (ksyms split_heap 1) = Some (''foo'', 0, False, None, 0)"
    using split_heap_registry by (simp add: ksym_view_def)
  note inst = ksymtab_find_outcomes[OF t]
  from inst have 1: "ksymtab_find split_heap (Some 0) None = Ok None" by blast
  from inst baz have 2: "ksymtab_find split_heap (Some 0) (Some (''baz'' @ [NUL])) = Ok None" by blast
  from inst r foo have 3: "ksymtab_find split_heap (Some 0) (Some (''foo'' @ [NUL])) = Ok (Some 1)" by blast
  from inst split_heap_run have 4: "ksymtab_find split_heap (Some 0) (Some [NUL]) = Ok None" by blast
  show ?thesis using t r split_heap_run 1 2 3 v 4 by simp
qed

text \<open>
  Claim C10.  On the NULL registry the length is 0, and the iteration over all records and
  the iteration over the unmarked ones return at once with the state untouched, whatever
  the visitor is: a visitor that counts its calls ends at 0.
\<close>

theorem ksymtab_null_handle:
  "ksymtab_len h None = Ok 0
   \<and> ksymtab_for_each None f s = Ok s
   \<and> ksymtab_for_each_unmarked None g s = Ok s
   \<and> ksymtab_for_each None (\<lambda>ksym (h', n). Ok (h', Suc n)) (h, 0) = Ok (h, 0)
   \<and> ksymtab_for_each_unmarked None (\<lambda>name idx (h', n). Ok (h', Suc n)) (h, 0) = Ok (h, 0)"
  by (simp add: ksymtab_len_def ksymtab_for_each_def ksymtab_for_each_unmarked_def)

section \<open>Properties of the enumerator and of the top-level routine\<close>

lemma sym_loop_entries:
  assumes tab: "strtab ke = Init tab" and sz: "strtab_size ke = Init tab_size"
    and len: "length data = n * sizeof_Elf64_Sym"
  shows "k \<le> n \<Longrightarrow>
     \<forall>s \<in> set (filter sym_kept (map (\<lambda>i. Elf64_Sym_at data (i * sizeof_Elf64_Sym)) [k..<n])).
        unat (st_name s) \<le> tab_size \<Longrightarrow>
     sym_loop ke fn data (k * sizeof_Elf64_Sym) ctx
       = handle_all fn tab (filter sym_kept (map (\<lambda>i. Elf64_Sym_at data (i * sizeof_Elf64_Sym)) [k..<n])) ctx"
proof (induction "n - k" arbitrary: k ctx)
  case 0
  then have "k = n" by simp
  then have "\<not> k * sizeof_Elf64_Sym < length data" by (simp add: len)
  then show ?case using \<open>k = n\<close> by (subst sym_loop.simps) simp
next
  case (Suc m)
  then have kn: "k < n" by simp
  let ?at = "\<lambda>i. Elf64_Sym_at data (i * sizeof_Elf64_Sym)"
  let ?s = "?at k"
  have upt: "[k..<n] = k # [Suc k..<n]" using kn by (rule upt_conv_Cons)
  have lt: "k * sizeof_Elf64_Sym < length data"
    using kn by (simp add: len sizeof_Elf64_Sym_def)
  have fit: "\<not> length data < k * sizeof_Elf64_Sym + sizeof_Elf64_Sym"
  proof -
    have "Suc k * sizeof_Elf64_Sym \<le> n * sizeof_Elf64_Sym"
      using kn by (intro mult_le_mono1) simp
    then show ?thesis by (simp add: len)
  qed
  have next_off: "k * sizeof_Elf64_Sym + sizeof_Elf64_Sym = Suc k * sizeof_Elf64_Sym" by simp
  have m: "m = n - Suc k" using Suc.hyps(2) by simp
  have le: "Suc k \<le> n" using kn by simp
  have rest: "\<forall>s \<in> set (filter sym_kept (map ?at [Suc k..<n])). unat (st_name s) \<le> tab_size"
    using Suc.prems(2) by (simp add: upt)
  have IH: "sym_loop ke fn data (k * sizeof_Elf64_Sym + sizeof_Elf64_Sym) c
      = handle_all fn tab (filter sym_kept (map ?at [Suc k..<n])) c" for c
    using Suc.hyps(1)[OF m le rest, of c] by (simp only: next_off)
  show ?case
  proof (cases "sym_kept ?s")
    case False
    have "sym_loop ke fn data (k * sizeof_Elf64_Sym) ctx
        = sym_loop ke fn data (k * sizeof_Elf64_Sym + sizeof_Elf64_Sym) ctx"
      using False lt fit
      by (subst sym_loop.simps) (auto simp: sym_kept_def Let_def)
    then show ?thesis using False by (simp add: upt IH del: mult_Suc)
  next
    case True
    then have inr: "\<not> tab_size < unat (st_name ?s)"
      using Suc.prems(2) by (simp add: upt not_less)
    have step: "sym_loop ke fn data (k * sizeof_Elf64_Sym) ctx
        = (case fn (tab, unat (st_name ?s)) (st_value ?s) (ELF64_ST_BIND (st_info ?s)) ctx of
             Ok ctx' \<Rightarrow> sym_loop ke fn data (k * sizeof_Elf64_Sym + sizeof_Elf64_Sym) ctx'
           | Fatal e \<Rightarrow> Fatal e
           | Undefined \<Rightarrow> Undefined)"
      using True lt fit inr
      by (subst sym_loop.simps) (auto simp: sym_kept_def Let_def tab sz)
    show ?thesis
      unfolding step using True
      by (simp add: upt IH del: mult_Suc split: res.splits)
  qed
qed

lemma handle_all_record_call:
  "handle_all record_call tab ss calls
     = Ok (calls @ map (\<lambda>s. ((tab, unat (st_name s)), st_value s, ELF64_ST_BIND (st_info s))) ss)"
  by (induction ss arbitrary: calls) (simp_all add: record_call_def)

lemma tl_symtab_entries:
  "tl (symtab_entries data)
     = map (\<lambda>i. Elf64_Sym_at data (i * sizeof_Elf64_Sym)) [1..<length data div sizeof_Elf64_Sym]"
  by (simp add: symtab_entries_def map_tl[symmetric] del: map_tl)

text \<open>
  Claim C5.  When the symbol table is a whole number of entries, the string table is cached
  in the handle and no kept entry has a name index beyond its length, the enumeration is
  the run of the handler over the kept entries after the first record, in order: once per
  entry with global or weak binding and a name index other than zero, and for no other
  entry; every call receives the pointer into the string table at the name index, the
  value and the binding of its entry.
\<close>

theorem ksymtab_elf_for_each_global_sym_kept:
  assumes "ksymtab_elf_get_section ke SYMTAB = Ok (Some data)"
    and "length data mod sizeof_Elf64_Sym = 0"
    and "strtab ke = Init tab" and "strtab_size ke = Init tab_size"
    and "\<forall>s \<in> set (filter sym_kept (tl (symtab_entries data))). unat (st_name s) \<le> tab_size"
  shows "ksymtab_elf_for_each_global_sym ke fn ctx
           = handle_all fn tab (filter sym_kept (tl (symtab_entries data))) ctx
     \<and> ksymtab_elf_for_each_global_sym ke record_call []
           = Ok (map (\<lambda>s. ((tab, unat (st_name s)), st_value s, ELF64_ST_BIND (st_info s)))
                  (filter sym_kept (tl (symtab_entries data))))"
proof -
  let ?n = "length data div sizeof_Elf64_Sym"
  have len: "length data = ?n * sizeof_Elf64_Sym"
    using assms(2) by (simp add: mod_eq_0_iff_dvd)
  have ne: "data \<noteq> []"
    using assms(1)
    by (auto simp: ksymtab_elf_get_section_def split: res.splits option.splits if_splits)
  then have n1: "1 \<le> ?n"
    using len by (cases "?n") auto
  have gen: "ksymtab_elf_for_each_global_sym ke f c
      = handle_all f tab (filter sym_kept (tl (symtab_entries data))) c" for f :: "'x sym_handler" and c
  proof -
    have "sym_loop ke f data (1 * sizeof_Elf64_Sym) c
        = handle_all f tab (filter sym_kept (map (\<lambda>i. Elf64_Sym_at data (i * sizeof_Elf64_Sym)) [1..<?n])) c"
      using assms(5) by (intro sym_loop_entries[OF assms(3,4) len n1]) (simp add: tl_symtab_entries)
    then show ?thesis
      by (simp add: ksymtab_elf_for_each_global_sym_def assms(1) tl_symtab_entries)
  qed
  show ?thesis
    using gen[of fn ctx] gen[of record_call "[]"] by (simp add: handle_all_record_call)
qed

lemma mixed_kept:
  "filter sym_kept (tl (symtab_entries symtab_mixed)) =
     [\<lparr>st_name = 1, st_info = 0x12, st_other = 0, st_shndx = 0, st_value = 0x20, st_size = 0\<rparr>,
      \<lparr>st_name = 1, st_info = 0x22, st_other = 0, st_shndx = 0, st_value = 0x30, st_size = 0\<rparr>]"
  by code_simp

theorem ksymtab_elf_for_each_global_sym_kept_witness:
  "ksymtab_elf_get_section mixed_ke SYMTAB = Ok (Some symtab_mixed)
   \<and> length symtab_mixed mod sizeof_Elf64_Sym = 0
   \<and> strtab mixed_ke = Init strtab_a \<and> strtab_size mixed_ke = Init 3
   \<and> ksymtab_elf_for_each_global_sym mixed_ke record_call []
        = Ok [((strtab_a, 1), 0x20, STB_GLOBAL), ((strtab_a, 1), 0x30, STB_WEAK)]"
proof -
  have a: "ksymtab_elf_get_section mixed_ke SYMTAB = Ok (Some symtab_mixed)"
    by code_simp
  have b: "length symtab_mixed mod sizeof_Elf64_Sym = 0"
    by code_simp
  have c: "strtab mixed_ke = Init strtab_a" and d: "strtab_size mixed_ke = Init 3"
    by (simp_all add: mixed_ke_def)
  have e: "\<forall>s \<in> set (filter sym_kept (tl (symtab_entries symtab_mixed))). unat (st_name s) \<le> 3"
    unfolding mixed_kept by simp
  have "ksymtab_elf_for_each_global_sym mixed_ke record_call []
        = Ok [((strtab_a, 1), 0x20, STB_GLOBAL), ((strtab_a, 1), 0x30, STB_WEAK)]"
    using ksymtab_elf_for_each_global_sym_kept[OF a b c d e, THEN conjunct2]
    unfolding mixed_kept by (simp add: ELF64_ST_BIND_def STB_GLOBAL_def STB_WEAK_def)
  then show ?thesis using a b c d by simp
qed

text \<open>
  Claim C3 fails on the code.  The range test is \<^verbatim>\<open>st_name > strtab_size\<close>: a kept entry whose
  name index equals the length of the string table passes it, the handler is called with
  the pointer one past the end of the table, and reading the name there reads outside the
  table.
\<close>

theorem symbol_name_index_at_end_not_rejected:
  "ksymtab_elf_open no_resources at_end_file
     = (Ok (Some at_end_ke), \<lparr>open_fds = 1, elf_handles = 1, ke_allocs = 1\<rparr>)
   \<and> strtab at_end_ke = Init strtab_a \<and> strtab_size at_end_ke = Init (length strtab_a)
   \<and> ksymtab_elf_for_each_global_sym at_end_ke record_call []
        = Ok [((strtab_a, length strtab_a), 0x1000, STB_GLOBAL)]
   \<and> read_c_string (strtab_a, length strtab_a) = Undefined
   \<and> ksymtab_elf_for_each_global_sym at_end_ke symtab_handler [] = Undefined"
  by code_simp

text \<open>
  Claim C7 fails on the code.  For a 64-bit ELF file without \<^verbatim>\<open>.strtab\<close> the open succeeds
  and stores the locals that were never assigned: the cached table and its length are
  indeterminate, and the enumeration of a kept entry reads them instead of ending the
  process with a message.
\<close>

theorem strtab_absent_indeterminate:
  "ksymtab_elf_open no_resources no_strtab_file
     = (Ok (Some no_strtab_ke), \<lparr>open_fds = 1, elf_handles = 1, ke_allocs = 1\<rparr>)
   \<and> strtab no_strtab_ke = Indeterminate \<and> strtab_size no_strtab_ke = Indeterminate
   \<and> ksymtab_elf_for_each_global_sym no_strtab_ke record_call [] = Undefined
   \<and> ksymtab_elf_for_each_global_sym no_strtab_ke symtab_handler [] = Undefined"
  by code_simp

lemma get_section_elf:
  "elf ke' = elf ke \<Longrightarrow> ksymtab_elf_get_section ke' name = ksymtab_elf_get_section ke name"
  by (simp add: ksymtab_elf_get_section_def)

text \<open>When \<^verbatim>\<open>.strtab\<close> is found, its contents and length are what the handle caches.\<close>

lemma elf_open_caches_strtab:
  assumes "ksymtab_elf_open rs f = (Ok (Some ke), rs')"
    and "ksymtab_elf_get_section ke STRTAB = Ok (Some d_buf)"
  shows "strtab ke = Init d_buf \<and> strtab_size ke = Init (length d_buf)"
proof -
  from assms(1) obtain e ndx where e: "elf_begin f = Some e" and ndx: "shdrstrndx e = Some ndx"
    and ke: "(case ksymtab_elf_get_section \<lparr>elf = e, shstrndx = ndx, strtab = Indeterminate, strtab_size = Indeterminate\<rparr> STRTAB of
                Ok None \<Rightarrow> ke = \<lparr>elf = e, shstrndx = ndx, strtab = Indeterminate, strtab_size = Indeterminate\<rparr>
              | Ok (Some d) \<Rightarrow> ke = \<lparr>elf = e, shstrndx = ndx, strtab = Init d, strtab_size = Init (length d)\<rparr>
              | Fatal err \<Rightarrow> False
              | Undefined \<Rightarrow> False)"
    by (auto simp: ksymtab_elf_open_def Let_def split: if_splits option.splits res.splits)
  let ?ke0 = "\<lparr>elf = e, shstrndx = ndx, strtab = Indeterminate, strtab_size = Indeterminate\<rparr>"
  have "elf ke = e"
    using ke by (auto split: res.splits option.splits)
  then have "ksymtab_elf_get_section ?ke0 STRTAB = Ok (Some d_buf)"
    using assms(2) get_section_elf[of ?ke0 ke STRTAB] by simp
  then show ?thesis using ke by simp
qed

lemma find_scn_absent:
  "\<forall>scn \<in> set ss. shdr_ok scn \<and> sh_name_str scn \<noteq> None \<and> sh_name_str scn \<noteq> Some name \<Longrightarrow>
     find_scn ss name = Ok None"
  by (induction ss) (auto split: option.splits)

lemma find_scn_found:
  "\<forall>scn \<in> set ss. shdr_ok scn \<and> sh_name_str scn \<noteq> None \<Longrightarrow>
     find_scn ss name = Ok None \<or>
     (\<exists>scn \<in> set ss. find_scn ss name = Ok (Some scn) \<and> sh_name_str scn = Some name)"
  by (induction ss) (auto split: option.splits)

lemma get_section_strtab_ok:
  assumes "valid_elf64 (elf ke)"
  shows "ksymtab_elf_get_section ke STRTAB = Ok None
     \<or> (\<exists>d. ksymtab_elf_get_section ke STRTAB = Ok (Some d))"
proof -
  have all: "\<forall>scn \<in> set (sections (elf ke)). shdr_ok scn \<and> sh_name_str scn \<noteq> None"
    using assms by (simp add: valid_elf64_def)
  from find_scn_found[OF all, of STRTAB] show ?thesis
  proof
    assume "find_scn (sections (elf ke)) STRTAB = Ok None"
    then show ?thesis by (simp add: ksymtab_elf_get_section_def)
  next
    assume "\<exists>scn \<in> set (sections (elf ke)). find_scn (sections (elf ke)) STRTAB = Ok (Some scn)
        \<and> sh_name_str scn = Some STRTAB"
    then obtain scn where scn: "scn \<in> set (sections (elf ke))"
      "find_scn (sections (elf ke)) STRTAB = Ok (Some scn)" "sh_name_str scn = Some STRTAB"
      by blast
    then have "shdr_ok scn" "sh_type scn \<noteq> SHT_NOBITS" "\<exists>d. d_data scn = Some d \<and> d \<noteq> []"
      using assms by (auto simp: valid_elf64_def)
    then show ?thesis using scn(2) by (auto simp: ksymtab_elf_get_section_def)
  qed
qed

lemma elf_open_valid:
  assumes "elf_version_ok f" and "openable f" and "elf_begin f = Some e" and "valid_elf64 e"
  shows "\<exists>ke. ksymtab_elf_open rs f
       = (Ok (Some ke), rs\<lparr>open_fds := Suc (open_fds rs), elf_handles := Suc (elf_handles rs),
                            ke_allocs := Suc (ke_allocs rs)\<rparr>)
     \<and> elf ke = e"
proof -
  from assms(4) obtain e_ident ndx where id: "ehdr_ident e = Some e_ident" "take SELFMAG e_ident = ELFMAG"
    and ndx: "shdrstrndx e = Some ndx" and kind: "elf_kind e = ELF_K_ELF" and cls: "elf_class e = ELFCLASS64"
    by (auto simp: valid_elf64_def)
  let ?ke = "\<lparr>elf = e, shstrndx = ndx, strtab = Indeterminate, strtab_size = Indeterminate\<rparr>"
  have "valid_elf64 (elf ?ke)" using assms(4) by simp
  from get_section_strtab_ok[OF this] show ?thesis
    using assms(1-3) id ndx kind cls
    by (auto simp: ksymtab_elf_open_def Let_def)
qed

text \<open>
  Claim C4.  For a file that can be opened and read by libelf: when it is not of ELF kind,
  or its magic bytes are not those of ELF, the routine returns NULL, with the heap
  untouched, no error, and the descriptor and the \<^verbatim>\<open>Elf\<close> still held; when it is a 64-bit
  ELF file in good order without a section named \<^verbatim>\<open>__ksymtab_strings\<close>, the routine returns
  NULL with the heap untouched and every resource it took given back.
\<close>

theorem ksymtab_read_none:
  assumes "elf_version_ok f" and "openable f" and "elf_begin f = Some e"
  shows "(elf_kind e \<noteq> ELF_K_ELF \<or> (\<exists>e_ident. ehdr_ident e = Some e_ident \<and> take SELFMAG e_ident \<noteq> ELFMAG)
            \<longrightarrow> ksymtab_read h rs out f
                  = (Ok None, h, rs\<lparr>open_fds := Suc (open_fds rs), elf_handles := Suc (elf_handles rs)\<rparr>, out))
     \<and> (valid_elf64 e \<and> (\<forall>scn \<in> set (sections e). sh_name_str scn \<noteq> Some KSYMTAB_STRINGS)
            \<longrightarrow> ksymtab_read h rs out f = (Ok None, h, rs, out))"
proof (intro conjI impI)
  assume "elf_kind e \<noteq> ELF_K_ELF \<or> (\<exists>e_ident. ehdr_ident e = Some e_ident \<and> take SELFMAG e_ident \<noteq> ELFMAG)"
  then have "ksymtab_elf_open rs f
      = (Ok None, rs\<lparr>open_fds := Suc (open_fds rs), elf_handles := Suc (elf_handles rs)\<rparr>)"
    using assms by (auto simp: ksymtab_elf_open_def Let_def)
  then show "ksymtab_read h rs out f
      = (Ok None, h, rs\<lparr>open_fds := Suc (open_fds rs), elf_handles := Suc (elf_handles rs)\<rparr>, out)"
    by (simp add: ksymtab_read_def)
next
  assume a: "valid_elf64 e \<and> (\<forall>scn \<in> set (sections e). sh_name_str scn \<noteq> Some KSYMTAB_STRINGS)"
  let ?rs = "rs\<lparr>open_fds := Suc (open_fds rs), elf_handles := Suc (elf_handles rs),
                            ke_allocs := Suc (ke_allocs rs)\<rparr>"
  from elf_open_valid[OF assms, of rs] a obtain ke where
    ke: "ksymtab_elf_open rs f = (Ok (Some ke), ?rs)" "elf ke = e"
    by blast
  have "\<forall>scn \<in> set (sections (elf ke)). shdr_ok scn \<and> sh_name_str scn \<noteq> None
      \<and> sh_name_str scn \<noteq> Some KSYMTAB_STRINGS"
    using a ke(2) by (simp add: valid_elf64_def)
  then have "find_scn (sections (elf ke)) KSYMTAB_STRINGS = Ok None"
    by (rule find_scn_absent)
  then have sec: "ksymtab_elf_get_section ke KSYMTAB_STRINGS = Ok None"
    by (simp add: ksymtab_elf_get_section_def)
  have "ksymtab_elf_close ?rs ke = rs"
    by (simp add: ksymtab_elf_close_def)
  then show "ksymtab_read h rs out f = (Ok None, h, rs, out)"
    by (simp add: ksymtab_read_def ke(1) sec)
qed

theorem ksymtab_read_none_witness:
  "ksymtab_read empty_heap no_resources [] not_elf_file
     = (Ok None, empty_heap, \<lparr>open_fds = 1, elf_handles = 1, ke_allocs = 0\<rparr>, [])
   \<and> ksymtab_read empty_heap no_resources [] at_end_file = (Ok None, empty_heap, no_resources, [])"
proof -
  let ?e1 = "\<lparr>elf_kind = 0, ehdr_ident = None, elf_class = 0, shdrstrndx = None, sections = []\<rparr>"
  let ?e2 = "\<lparr>elf_kind = 3, ehdr_ident = Some (ELFMAG @ [CHR 0x02, CHR 0x01, CHR 0x01]),
              elf_class = 2, shdrstrndx = Some 1,
              sections = [scn_of STRTAB 3 strtab_a, scn_of SYMTAB 2 symtab_at_end]\<rparr>"
  have f1: "elf_version_ok not_elf_file" "openable not_elf_file" "elf_begin not_elf_file = Some ?e1"
    by (simp_all add: not_elf_file_def)
  have n1: "elf_kind ?e1 \<noteq> ELF_K_ELF"
    by (simp add: ELF_K_ELF_def)
  have f2: "elf_version_ok at_end_file" "openable at_end_file" "elf_begin at_end_file = Some ?e2"
    by (simp_all add: at_end_file_def elf64_of_def)
  have v2: "valid_elf64 ?e2"
    by (simp add: valid_elf64_def ELF_K_ELF_def ELFMAG_def SELFMAG_def ELFCLASS64_def scn_of_def
        STRTAB_def SYMTAB_def SHT_NOBITS_def strtab_a_def)
  have a2: "\<forall>scn \<in> set (sections ?e2). sh_name_str scn \<noteq> Some KSYMTAB_STRINGS"
    by (simp add: scn_of_def STRTAB_def SYMTAB_def KSYMTAB_STRINGS_def)
  have 1: "ksymtab_read empty_heap no_resources [] not_elf_file
     = (Ok None, empty_heap, \<lparr>open_fds = 1, elf_handles = 1, ke_allocs = 0\<rparr>, [])"
    using ksymtab_read_none[OF f1, of empty_heap no_resources "[]"] n1
    by (simp add: no_resources_def)
  have 2: "ksymtab_read empty_heap no_resources [] at_end_file = (Ok None, empty_heap, no_resources, [])"
    using ksymtab_read_none[OF f2, of empty_heap no_resources "[]"] v2 a2
    by blast
  show ?thesis using 1 2 by simp
qed

end
